theory Spec2Isabelle
  imports Main "HOL-Library.Word"
begin

section \<open>Values and console output\<close>

text \<open>
  The C++ type \<open>unsigned\<close> is a 32-bit word whose arithmetic wraps; \<open>int\<close> is the
  same word read in two's complement (\<open>sint\<close>). Every \<open>std::cout << v << '\n'\<close> of the
  sources writes one line holding a number; \<open>std::cout << '\n'\<close> writes an empty line.
\<close>

type_synonym unsigned = "32 word"
type_synonym cint = "32 word"

datatype line = Number int | Empty

section \<open>Awaitables and the promise types\<close>

text \<open>
  \<open>std::suspend_always\<close> and \<open>std::suspend_never\<close> are the two trivial awaitables
  of the standard library; \<open>await_ready\<close> tells whether the coroutine goes on
  without suspending.
\<close>

datatype awaiter = suspend_always | suspend_never

fun await_ready :: "awaiter \<Rightarrow> bool" where
  "await_ready suspend_always = False"
| "await_ready suspend_never = True"

text \<open>
  The state of the process: \<open>std::terminate()\<close> ends it (\<open>Terminated\<close>), and a use of
  a handle whose frame has been destroyed is undefined behaviour (\<open>Undefined\<close>).
  Nothing runs in a process that is not \<open>Running\<close>.
\<close>

datatype process = Running | Terminated | Undefined

text \<open>\<open>PromiseBase\<close>: the three customization points shared by every promise type.\<close>

definition initial_suspend :: awaiter where
  "initial_suspend = suspend_always"

definition final_suspend :: awaiter where
  "final_suspend = suspend_always"

definition unhandled_exception :: process where
  "unhandled_exception = Terminated"

text \<open>
  \<open>Promise<T, U>\<close> with its members \<open>T x_\<close> and \<open>U y_\<close>. Both are default-initialised,
  so their value is indeterminate until \<open>yield_value\<close> or \<open>return_value\<close> assigns them:
  \<open>None\<close> is the indeterminate value (and the slot a specialisation for \<open>void\<close> does
  not have). A name of Isabelle cannot end with an underscore: the members are \<open>x_m\<close> and
  \<open>y_m\<close> here, and \<open>handle_m\<close> in the wrapper.
\<close>

record promise =
  x_m :: "unsigned option"
  y_m :: "cint option"

definition yield_value :: "unsigned \<Rightarrow> promise \<Rightarrow> promise \<times> awaiter" where
  "yield_value x p = (p\<lparr>x_m := Some x\<rparr>, suspend_always)"

definition return_value :: "cint \<Rightarrow> promise \<Rightarrow> promise" where
  "return_value y p = p\<lparr>y_m := Some y\<rparr>"

definition return_void :: "promise \<Rightarrow> promise" where
  "return_void p = p"

section \<open>Coroutine bodies and frames\<close>

text \<open>
  A coroutine body is the list of its statements; \<open>'s\<close> is the type of its local
  variables and an expression is a function from the locals to its value and the locals
  after its side effects. \<open>Throw\<close> stands for any statement from which an exception
  escapes the body.
\<close>

datatype 's stmt =
    Print "'s \<Rightarrow> unsigned \<times> 's"
  | CoAwait awaiter
  | CoYield "'s \<Rightarrow> unsigned \<times> 's"
  | CoReturn "'s \<Rightarrow> cint \<times> 's"
  | Throw

text \<open>Where a frame is suspended.\<close>

datatype susp = InitialSuspend | AwaitSuspend | YieldSuspend | FinalSuspend

text \<open>
  The coroutine frame: the promise, the locals, the statements that follow the
  suspension point (where \<open>resume\<close> continues) and the kind of the suspension point.
\<close>

record 's frame =
  promise :: promise
  locals :: 's
  resume_point :: "'s stmt list"
  susp_at :: susp

text \<open>
  What running a frame up to its next suspension gives, with the lines printed on the
  way: the frame suspended again, the frame gone (the coroutine ran past a final
  suspend point that did not suspend, which destroys the frame), or the process ended
  by \<open>unhandled_exception\<close>.
\<close>

datatype 's run_result =
    Suspended "'s frame" "line list"
  | Completed "line list"
  | Aborted process "line list"

fun emit :: "line \<Rightarrow> 's run_result \<Rightarrow> 's run_result" where
  "emit l (Suspended f ls) = Suspended f (l # ls)"
| "emit l (Completed ls) = Completed (l # ls)"
| "emit l (Aborted pr ls) = Aborted pr (l # ls)"

text \<open>\<open>co_await promise.final_suspend()\<close>, after \<open>return_void\<close> or \<open>return_value\<close>.\<close>

definition at_final :: "promise \<Rightarrow> 's \<Rightarrow> 's run_result" where
  "at_final p s =
     (if await_ready final_suspend then Completed []
      else Suspended \<lparr>promise = p, locals = s, resume_point = [], susp_at = FinalSuspend\<rparr> [])"

text \<open>
  The body from a given statement on, up to the next suspension. Falling off the end
  of the body is \<open>co_return;\<close>, that is \<open>return_void\<close>.
\<close>

fun run :: "'s stmt list \<Rightarrow> promise \<Rightarrow> 's \<Rightarrow> 's run_result" where
  "run [] p s = at_final (return_void p) s"
| "run (Print e # k) p s =
     (case e s of (v, s') \<Rightarrow> emit (Number (uint v)) (run k p s'))"
| "run (CoAwait a # k) p s =
     (if await_ready a then run k p s
      else Suspended \<lparr>promise = p, locals = s, resume_point = k, susp_at = AwaitSuspend\<rparr> [])"
| "run (CoYield e # k) p s =
     (case e s of (v, s') \<Rightarrow>
        (case yield_value v p of (p', a) \<Rightarrow>
           if await_ready a then run k p' s'
           else Suspended \<lparr>promise = p', locals = s', resume_point = k, susp_at = YieldSuspend\<rparr> []))"
| "run (CoReturn e # k) p s =
     (case e s of (v, s') \<Rightarrow> at_final (return_value v p) s')"
| "run (Throw # k) p s = Aborted unhandled_exception []"

section \<open>The process: coroutine frames on the heap, console, handles\<close>

type_synonym handle = nat

record 's world =
  frames :: "handle \<Rightarrow> 's frame option"
  fresh :: handle
  out :: "line list"
  proc :: process

definition start :: "'s world" where
  "start = \<lparr>frames = (\<lambda>h. None), fresh = 0, out = [], proc = Running\<rparr>"

text \<open>Stores what \<open>run\<close> gave for the frame at \<open>h\<close>.\<close>

fun settle :: "handle \<Rightarrow> 's run_result \<Rightarrow> 's world \<Rightarrow> 's world" where
  "settle h (Suspended f ls) w = w\<lparr>frames := (frames w)(h := Some f), out := out w @ ls\<rparr>"
| "settle h (Completed ls) w = w\<lparr>frames := (frames w)(h := None), out := out w @ ls\<rparr>"
| "settle h (Aborted pr ls) w = w\<lparr>out := out w @ ls, proc := pr\<rparr>"

text \<open>
  \<open>std::coroutine_handle\<close>: \<open>done()\<close>, \<open>resume()\<close> and \<open>destroy()\<close>. Each is
  undefined on a handle whose frame is gone, and \<open>resume()\<close> is undefined on a
  coroutine suspended at its final suspend point.
\<close>

definition frame_done :: "'s frame \<Rightarrow> bool" where
  "frame_done f = (susp_at f = FinalSuspend)"

definition handle_done :: "handle \<Rightarrow> 's world \<Rightarrow> bool" where
  "handle_done h w = (case frames w h of None \<Rightarrow> False | Some f \<Rightarrow> frame_done f)"

definition handle_resume :: "handle \<Rightarrow> 's world \<Rightarrow> 's world" where
  "handle_resume h w =
     (case frames w h of
        None \<Rightarrow> w\<lparr>proc := Undefined\<rparr>
      | Some f \<Rightarrow>
          if frame_done f then w\<lparr>proc := Undefined\<rparr>
          else settle h (run (resume_point f) (promise f) (locals f)) w)"

definition handle_destroy :: "handle \<Rightarrow> 's world \<Rightarrow> 's world" where
  "handle_destroy h w =
     (case frames w h of
        None \<Rightarrow> w\<lparr>proc := Undefined\<rparr>
      | Some f \<Rightarrow> w\<lparr>frames := (frames w)(h := None)\<rparr>)"

section \<open>The wrapper \<open>CoTask\<close>\<close>

text \<open>The only member is \<open>handle_\<close> (here \<open>handle_m\<close>); \<open>None\<close> is the null handle.\<close>

record CoTask =
  handle_m :: "handle option"

definition CoTask_ctor :: "handle option \<Rightarrow> CoTask" where
  "CoTask_ctor handle = \<lparr>handle_m = handle\<rparr>"

text \<open>\<open>std::exchange(obj, v)\<close>: the old value, and the object holding \<open>v\<close>.\<close>

definition exchange :: "CoTask \<Rightarrow> handle option \<Rightarrow> handle option \<times> CoTask" where
  "exchange ct v = (handle_m ct, ct\<lparr>handle_m := v\<rparr>)"

text \<open>The move constructor of part_000: the new wrapper, and \<open>ct\<close> afterwards.\<close>

definition CoTask_move :: "CoTask \<Rightarrow> CoTask \<times> CoTask" where
  "CoTask_move ct = (case exchange ct None of (h, ct') \<Rightarrow> (\<lparr>handle_m = h\<rparr>, ct'))"

text \<open>The destructor.\<close>

definition CoTask_dtor :: "CoTask \<Rightarrow> 's world \<Rightarrow> 's world" where
  "CoTask_dtor this w =
     (if proc w \<noteq> Running then w
      else case handle_m this of None \<Rightarrow> w | Some h \<Rightarrow> handle_destroy h w)"

text \<open>
  \<open>resume\<close>. When the body ends the process, \<open>resume\<close> does not return; the model
  gives \<open>False\<close> then, so that no loop of the caller goes on.
\<close>

definition resume :: "CoTask \<Rightarrow> 's world \<Rightarrow> bool \<times> 's world" where
  "resume this w =
     (if proc w \<noteq> Running then (False, w)
      else case handle_m this of
        None \<Rightarrow> (False, w)
      | Some h \<Rightarrow>
          (case frames w h of
             None \<Rightarrow> (False, w\<lparr>proc := Undefined\<rparr>)
           | Some f \<Rightarrow>
               if frame_done f then (False, w)
               else (let w' = handle_resume h w
                     in (proc w' = Running \<and> \<not> handle_done h w', w'))))"

text \<open>
  \<open>get_value\<close> and \<open>get_result\<close> read the promise through the handle; both are
  \<open>const\<close> and return a copy. Reading through a null handle, a destroyed frame or
  a member never assigned is an error.
\<close>

datatype error = NullHandle | Dangling | Indeterminate

definition get_value :: "CoTask \<Rightarrow> 's world \<Rightarrow> error + unsigned" where
  "get_value this w =
     (case handle_m this of
        None \<Rightarrow> Inl NullHandle
      | Some h \<Rightarrow>
          (case frames w h of
             None \<Rightarrow> Inl Dangling
           | Some f \<Rightarrow> (case x_m (promise f) of None \<Rightarrow> Inl Indeterminate | Some v \<Rightarrow> Inr v)))"

definition get_result :: "CoTask \<Rightarrow> 's world \<Rightarrow> error + cint" where
  "get_result this w =
     (case handle_m this of
        None \<Rightarrow> Inl NullHandle
      | Some h \<Rightarrow>
          (case frames w h of
             None \<Rightarrow> Inl Dangling
           | Some f \<Rightarrow> (case y_m (promise f) of None \<Rightarrow> Inl Indeterminate | Some v \<Rightarrow> Inr v)))"

text \<open>\<open>get_return_object\<close>: the wrapper for the frame of this promise.\<close>

definition get_return_object :: "handle \<Rightarrow> CoTask" where
  "get_return_object h = CoTask_ctor (Some h)"

text \<open>
  Calling a coroutine with locals \<open>s0\<close> and body \<open>body\<close>: the frame is allocated at a
  fresh address, the promise is default-constructed, the return object is made, and
  \<open>co_await promise.initial_suspend()\<close> decides whether the body starts at once.
\<close>

definition co_call :: "'s \<Rightarrow> 's stmt list \<Rightarrow> 's world \<Rightarrow> CoTask \<times> 's world" where
  "co_call s0 body w =
     (if proc w \<noteq> Running then (CoTask_ctor None, w)
      else
        (let h = fresh w;
             p = \<lparr>x_m = None, y_m = None\<rparr>;
             task = get_return_object h;
             w' = w\<lparr>fresh := Suc h\<rparr>
         in if await_ready initial_suspend then (task, settle h (run body p s0) w')
            else (task, w'\<lparr>frames := (frames w')(h := Some
                    \<lparr>promise = p, locals = s0, resume_point = body, susp_at = InitialSuspend\<rparr>)\<rparr>)))"

section \<open>The examples\<close>

text \<open>The two expressions of the examples over the local \<open>unsigned x\<close>.\<close>

definition post_inc :: "unsigned \<Rightarrow> unsigned \<times> unsigned" where
  "post_inc x = (x, x + 1)"

definition read_x :: "unsigned \<Rightarrow> unsigned \<times> unsigned" where
  "read_x x = (x, x)"

definition co_await_int :: "unsigned world \<Rightarrow> CoTask \<times> unsigned world" where
  "co_await_int =
     co_call 0 [Print post_inc, CoAwait suspend_always, Print read_x, CoAwait suspend_always]"

definition co_yield_int :: "unsigned world \<Rightarrow> CoTask \<times> unsigned world" where
  "co_yield_int = co_call 0 [CoYield post_inc, CoYield read_x]"

definition co_return_int :: "unsigned world \<Rightarrow> CoTask \<times> unsigned world" where
  "co_return_int = co_call 0 [CoYield post_inc, CoReturn read_x]"

section \<open>The polling loops of \<open>main\<close>\<close>

text \<open>Each \<open>resume\<close> that returns \<open>true\<close> leaves fewer statements to run.\<close>

definition remaining :: "CoTask \<Rightarrow> 's world \<Rightarrow> nat" where
  "remaining this w =
     (case handle_m this of
        None \<Rightarrow> 0
      | Some h \<Rightarrow>
          (case frames w h of
             None \<Rightarrow> 0
           | Some f \<Rightarrow> if frame_done f then 0 else Suc (length (resume_point f))))"

lemma emit_Suspended:
  "emit l r = Suspended f ls \<longleftrightarrow> (\<exists>ls'. r = Suspended f ls' \<and> ls = l # ls')"
  by (cases r) auto

lemma emit_Completed:
  "emit l r = Completed ls \<longleftrightarrow> (\<exists>ls'. r = Completed ls' \<and> ls = l # ls')"
  by (cases r) auto

lemma emit_Aborted:
  "emit l r = Aborted pr ls \<longleftrightarrow> (\<exists>ls'. r = Aborted pr ls' \<and> ls = l # ls')"
  by (cases r) auto

lemma run_shortens:
  "run k p s = Suspended f ls \<Longrightarrow> length (resume_point f) \<le> length k"
proof (induction k arbitrary: p s ls)
  case Nil
  then show ?case
    by (auto simp: at_final_def split: if_splits)
next
  case (Cons st k)
  show ?case
  proof (cases st)
    case (Print e)
    with Cons.prems obtain ls' where "run k p (snd (e s)) = Suspended f ls'"
      by (auto simp: emit_Suspended split: prod.splits)
    from Cons.IH [OF this] show ?thesis by simp
  next
    case (CoAwait a)
    with Cons show ?thesis
      by (cases "await_ready a") (auto dest: Cons.IH le_SucI)
  next
    case (CoYield e)
    with Cons show ?thesis
      by (auto simp: yield_value_def split: prod.splits)
  next
    case (CoReturn e)
    with Cons.prems show ?thesis
      by (auto simp: at_final_def split: prod.splits if_splits)
  next
    case Throw
    with Cons.prems show ?thesis by simp
  qed
qed

lemma run_progress:
  "run k p s = Suspended f ls \<Longrightarrow> \<not> frame_done f \<Longrightarrow> length (resume_point f) < length k"
proof (cases k)
  case Nil
  assume "run k p s = Suspended f ls" "\<not> frame_done f"
  with Nil show ?thesis
    by (auto simp: at_final_def frame_done_def split: if_splits)
next
  case (Cons st k')
  assume r: "run k p s = Suspended f ls" and nd: "\<not> frame_done f"
  show ?thesis
  proof (cases st)
    case (Print e)
    with r Cons obtain ls' where "run k' p (snd (e s)) = Suspended f ls'"
      by (auto simp: emit_Suspended split: prod.splits)
    from run_shortens [OF this] Cons show ?thesis by simp
  next
    case (CoAwait a)
    with r Cons show ?thesis
      by (cases "await_ready a") (auto dest: run_shortens)
  next
    case (CoYield e)
    with r Cons show ?thesis
      by (auto simp: yield_value_def split: prod.splits)
  next
    case (CoReturn e)
    with r Cons nd show ?thesis
      by (auto simp: at_final_def frame_done_def split: prod.splits if_splits)
  next
    case Throw
    with r Cons show ?thesis by simp
  qed
qed

lemma run_Aborted: "run k p s = Aborted pr ls \<Longrightarrow> pr = Terminated"
proof (induction k arbitrary: p s ls)
  case Nil
  then show ?case
    by (simp add: at_final_def split: if_splits)
next
  case (Cons st k)
  then show ?case
    by (cases st)
      (auto simp: emit_Aborted yield_value_def at_final_def unhandled_exception_def
        split: prod.splits if_splits)
qed

lemma resume_decreases:
  assumes "resume this w = (True, w')"
  shows "remaining this w' < remaining this w"
proof -
  from assms obtain h f where h: "handle_m this = Some h" and f: "frames w h = Some f"
    and nd: "\<not> frame_done f" and w': "w' = handle_resume h w"
    and run': "proc w' = Running" and nd': "\<not> handle_done h w'" and pw: "proc w = Running"
    by (auto simp: resume_def Let_def split: if_splits option.splits)
  let ?r = "run (resume_point f) (promise f) (locals f)"
  from f nd w' have w'': "w' = settle h ?r w"
    by (simp add: handle_resume_def)
  show ?thesis
  proof (cases ?r)
    case (Suspended f' ls)
    with w'' nd' have "\<not> frame_done f'" and "frames w' h = Some f'"
      by (auto simp: handle_done_def)
    with run_progress [OF Suspended] h f nd show ?thesis
      by (simp add: remaining_def)
  next
    case (Completed ls)
    with w'' h f nd show ?thesis
      by (simp add: remaining_def)
  next
    case (Aborted pr ls)
    with w'' run' run_Aborted [OF Aborted] have False
      by simp
    then show ?thesis ..
  qed
qed

text \<open>\<open>std::cout << cpf.get_value() << '\n'\<close> and its like.\<close>

definition print_value :: "CoTask \<Rightarrow> 's world \<Rightarrow> 's world" where
  "print_value cpf w =
     (if proc w \<noteq> Running then w
      else case get_value cpf w of
        Inl e \<Rightarrow> w\<lparr>proc := Undefined\<rparr>
      | Inr v \<Rightarrow> w\<lparr>out := out w @ [Number (uint v)]\<rparr>)"

definition print_result :: "CoTask \<Rightarrow> 's world \<Rightarrow> 's world" where
  "print_result cpf w =
     (if proc w \<noteq> Running then w
      else case get_result cpf w of
        Inl e \<Rightarrow> w\<lparr>proc := Undefined\<rparr>
      | Inr v \<Rightarrow> w\<lparr>out := out w @ [Number (sint v)]\<rparr>)"

definition print_newline :: "'s world \<Rightarrow> 's world" where
  "print_newline w = (if proc w \<noteq> Running then w else w\<lparr>out := out w @ [Empty]\<rparr>)"

lemma remaining_print_value: "remaining cpf (print_value cpf w) = remaining cpf w"
  by (auto simp: remaining_def print_value_def split: sum.splits option.splits)

text \<open>\<open>while(cpf.resume()) { }\<close>\<close>

function poll :: "CoTask \<Rightarrow> 's world \<Rightarrow> 's world" where
  "poll cpf w = (case resume cpf w of (b, w') \<Rightarrow> if b then poll cpf w' else w')"
  by pat_completeness auto
termination
  by (relation "measure (\<lambda>(cpf, w). remaining cpf w)") (auto simp: resume_decreases)

text \<open>\<open>while(cpf.resume()) { std::cout << cpf.get_value() << '\n'; }\<close>\<close>

function poll_print :: "CoTask \<Rightarrow> 's world \<Rightarrow> 's world" where
  "poll_print cpf w =
     (case resume cpf w of (b, w') \<Rightarrow> if b then poll_print cpf (print_value cpf w') else w')"
  by pat_completeness auto
termination
  by (relation "measure (\<lambda>(cpf, w). remaining cpf w)")
    (auto simp: resume_decreases remaining_print_value)

text \<open>
  The three blocks of \<open>main\<close>; the wrapper \<open>cpf\<close> is destroyed at the end of its block.
  The \<open>main\<close> of coroutines.cpp and that of part_000 differ in the last empty line only.
\<close>

definition block_await :: "unsigned world \<Rightarrow> unsigned world" where
  "block_await w = (case co_await_int w of (cpf, w1) \<Rightarrow> CoTask_dtor cpf (poll cpf w1))"

definition block_yield :: "unsigned world \<Rightarrow> unsigned world" where
  "block_yield w = (case co_yield_int w of (cpf, w1) \<Rightarrow> CoTask_dtor cpf (poll_print cpf w1))"

definition block_return :: "unsigned world \<Rightarrow> unsigned world" where
  "block_return w =
     (case co_return_int w of (cpf, w1) \<Rightarrow>
        CoTask_dtor cpf (print_result cpf (poll_print cpf w1)))"

definition main_coroutines :: "unsigned world" where
  "main_coroutines =
     block_return (print_newline (block_yield (print_newline (block_await start))))"

definition main_part_000 :: "unsigned world" where
  "main_part_000 =
     print_newline (block_return (print_newline (block_yield (print_newline (block_await start)))))"

section \<open>The generator example (part_001)\<close>

text \<open>
  \<open>sequence\<close> is a template over an integral type \<open>T\<close>: a word of any width, compared
  and read as signed or as unsigned.
\<close>

datatype int_type = SignedT | UnsignedT

fun less_T :: "int_type \<Rightarrow> 'a::len word \<Rightarrow> 'a word \<Rightarrow> bool" where
  "less_T SignedT a b = (a <s b)"
| "less_T UnsignedT a b = (a < b)"

fun value_T :: "int_type \<Rightarrow> 'a::len word \<Rightarrow> int" where
  "value_T SignedT a = sint a"
| "value_T UnsignedT a = uint a"

text \<open>
  The frame of \<open>sequence(n)\<close>: the parameter \<open>n\<close>, the local \<open>x\<close>, the value handed
  to the last \<open>co_yield\<close>, and where the coroutine is suspended. A \<open>std::generator\<close>
  suspends at its start, at each \<open>co_yield\<close> and at its end.
\<close>

datatype gen_susp = GenInitial | GenYield | GenFinal

record 'v generator =
  seq_n :: 'v
  seq_x :: 'v
  seq_current :: "'v option"
  seq_at :: gen_susp

definition sequence :: "'a::len word \<Rightarrow> 'a word generator" where
  "sequence n = \<lparr>seq_n = n, seq_x = 0, seq_current = None, seq_at = GenInitial\<rparr>"

text \<open>\<open>while(x < n) { co_yield x++; }\<close> from the test of the loop to the next suspension.\<close>

definition loop_head :: "int_type \<Rightarrow> 'a::len word generator \<Rightarrow> 'a word generator" where
  "loop_head ty g =
     (if less_T ty (seq_x g) (seq_n g)
      then g\<lparr>seq_current := Some (seq_x g), seq_x := seq_x g + 1, seq_at := GenYield\<rparr>
      else g\<lparr>seq_at := GenFinal\<rparr>)"

text \<open>Resuming the generator: \<open>T x{}\<close> runs on the first resumption.\<close>

definition gen_resume :: "int_type \<Rightarrow> 'a::len word generator \<Rightarrow> 'a word generator" where
  "gen_resume ty g =
     (case seq_at g of
        GenInitial \<Rightarrow> loop_head ty (g\<lparr>seq_x := 0\<rparr>)
      | GenYield \<Rightarrow> loop_head ty g
      | GenFinal \<Rightarrow> g)"

definition gen_measure :: "int_type \<Rightarrow> 'a::len word generator \<Rightarrow> nat" where
  "gen_measure ty g =
     (case seq_at g of
        GenInitial \<Rightarrow> 2 + nat (value_T ty (seq_n g))
      | GenYield \<Rightarrow> 1 + nat (value_T ty (seq_n g) - value_T ty (seq_x g))
      | GenFinal \<Rightarrow> 0)"

lemma sint_succ:
  fixes x :: "'a::len word"
  assumes "x <s n"
  shows "sint (x + 1) = sint x + 1"
proof -
  from assms have "sint x < sint n"
    by (simp add: word_sless_alt)
  moreover have "sint n < 2 ^ (LENGTH('a) - 1)"
    by (rule sint_lt)
  moreover have "- (2 ^ (LENGTH('a) - 1)) \<le> sint x"
    by (rule sint_ge)
  ultimately have bounds:
    "- (2 ^ (LENGTH('a) - 1)) \<le> sint x + 1" "sint x + 1 < 2 ^ (LENGTH('a) - 1)"
    by linarith+
  have "x + 1 = word_of_int (sint x + 1)"
    by simp
  then have "sint (x + 1) = signed_take_bit (LENGTH('a) - 1) (sint x + 1)"
    by (simp only: sint_sbintrunc')
  with bounds show ?thesis
    by (simp add: signed_take_bit_int_eq_self)
qed

lemma uint_succ:
  fixes x :: "'a::len word"
  assumes "x < n"
  shows "uint (x + 1) = uint x + 1"
proof -
  from assms have "uint x < uint n"
    by (simp add: word_less_def)
  moreover have "uint n < 2 ^ LENGTH('a)"
    by (rule uint_lt2p)
  ultimately have "uint x + 1 < 2 ^ LENGTH('a)"
    by linarith
  moreover have "0 \<le> uint x + 1"
    by simp
  moreover have "x + 1 = word_of_int (uint x + 1)"
    by simp
  ultimately show ?thesis
    by (simp only: uint_word_of_int) (simp add: take_bit_int_eq_self)
qed

lemma value_succ: "less_T ty x n \<Longrightarrow> value_T ty (x + 1) = value_T ty x + 1"
  by (cases ty) (simp_all add: sint_succ uint_succ)

lemma less_T_iff: "less_T ty x n \<longleftrightarrow> value_T ty x < value_T ty n"
  by (cases ty) (simp_all add: word_sless_alt word_less_def)

lemma value_T_0: "value_T ty 0 = 0"
  by (cases ty) simp_all

lemma value_T_1:
  fixes n :: "'a::len word"
  shows "less_T ty 0 n \<Longrightarrow> value_T ty (1 :: 'a word) = 1"
  using value_succ [of ty 0 n] by (simp add: value_T_0)

lemma gen_resume_decreases:
  "seq_at g \<noteq> GenFinal \<Longrightarrow> gen_measure ty (gen_resume ty g) < gen_measure ty g"
proof (cases "seq_at g")
  case GenInitial
  show ?thesis
  proof (cases "less_T ty 0 (seq_n g)")
    case True
    with GenInitial value_T_1 [OF True] show ?thesis
      by (simp add: gen_measure_def gen_resume_def loop_head_def)
  next
    case False
    with GenInitial show ?thesis
      by (simp add: gen_measure_def gen_resume_def loop_head_def)
  qed
next
  case GenYield
  then show ?thesis
    by (auto simp: gen_measure_def gen_resume_def loop_head_def value_succ less_T_iff)
next
  case GenFinal
  assume "seq_at g \<noteq> GenFinal"
  with GenFinal show ?thesis by simp
qed

text \<open>
  A range-based \<open>for\<close> over the generator from the iterator's position: it ends when the
  coroutine is done, reads the value yielded last, and \<open>++it\<close> resumes the coroutine.
\<close>

function elements_from :: "int_type \<Rightarrow> 'a::len word generator \<Rightarrow> 'a word list" where
  "elements_from ty g =
     (if seq_at g = GenFinal then []
      else case seq_current g of
        None \<Rightarrow> []
      | Some v \<Rightarrow> v # elements_from ty (gen_resume ty g))"
  by pat_completeness auto
termination
  by (relation "measure (\<lambda>(ty, g). gen_measure ty g)") (auto simp: gen_resume_decreases)

text \<open>The whole range: \<open>begin()\<close> resumes the coroutine for the first time.\<close>

definition elements :: "int_type \<Rightarrow> 'a::len word generator \<Rightarrow> 'a word list" where
  "elements ty g = elements_from ty (gen_resume ty g)"

text \<open>\<open>print_range\<close>: one line for each element, then an empty line.\<close>

definition print_range :: "int_type \<Rightarrow> 'a::len word list \<Rightarrow> line list" where
  "print_range ty R = map (\<lambda>x. Number (value_T ty x)) R @ [Empty]"

text \<open>\<open>std::ranges::includes\<close> on two sorted ranges.\<close>

fun ranges_includes :: "int list \<Rightarrow> int list \<Rightarrow> bool" where
  "ranges_includes xs [] = True"
| "ranges_includes [] (y # ys) = False"
| "ranges_includes (x # xs) (y # ys) =
     (if y < x then False
      else if x < y then ranges_includes xs (y # ys)
      else ranges_includes xs ys)"

text \<open>\<open>main\<close> of part_001: what it prints, and whether its assertion holds.\<close>

definition main_part_001 :: "line list \<times> bool" where
  "main_part_001 =
     (let o1 = print_range SignedT (elements SignedT (sequence (10 :: 32 word)));
          x = elements SignedT (sequence (10 :: 32 word));
          o2 = print_range SignedT x;
          ok = ranges_includes (map sint (elements SignedT (sequence (10 :: 32 word)))) [1, 3, 5]
      in (o1 @ o2, ok))"

declare poll.simps [simp del] poll_print.simps [simp del] elements_from.simps [simp del]

section \<open>General facts about running a body\<close>

lemma run_not_Completed: "run k p s \<noteq> Completed ls"
proof (induction k arbitrary: p s ls)
  case Nil
  show ?case
    by (simp add: at_final_def final_suspend_def)
next
  case (Cons st k)
  show ?case
    by (cases st)
      (auto simp: emit_Completed Cons.IH yield_value_def at_final_def final_suspend_def
        split: prod.splits)
qed

lemma resume_suspended:
  assumes "proc w = Running" "handle_m this = Some h" "frames w h = Some f" "\<not> frame_done f"
    and "run (resume_point f) (promise f) (locals f) = Suspended f' ls"
  shows "resume this w =
    (\<not> frame_done f', w\<lparr>frames := (frames w)(h := Some f'), out := out w @ ls\<rparr>)"
  using assms by (simp add: resume_def handle_resume_def handle_done_def Let_def)

lemma resume_aborted:
  assumes "proc w = Running" "handle_m this = Some h" "frames w h = Some f" "\<not> frame_done f"
    and "run (resume_point f) (promise f) (locals f) = Aborted pr ls"
  shows "resume this w = (False, w\<lparr>out := out w @ ls, proc := Terminated\<rparr>)"
  using assms run_Aborted [OF assms(5)]
  by (simp add: resume_def handle_resume_def handle_done_def Let_def)

lemma resume_keeps_frame:
  assumes "handle_m this = Some h" "frames w h = Some f"
  shows "frames (snd (resume this w)) h \<noteq> None"
proof (cases "proc w = Running \<and> \<not> frame_done f")
  case False
  with assms show ?thesis
    by (auto simp: resume_def)
next
  case True
  show ?thesis
  proof (cases "run (resume_point f) (promise f) (locals f)")
    case (Suspended f' ls)
    with True assms show ?thesis
      by (simp add: resume_suspended)
  next
    case (Completed ls)
    then show ?thesis
      by (simp add: run_not_Completed)
  next
    case (Aborted pr ls)
    with True assms show ?thesis
      by (simp add: resume_aborted)
  qed
qed

lemma resume_other_frames:
  assumes "handle_m this = Some h" "h' \<noteq> h"
  shows "frames (snd (resume this w)) h' = frames w h'"
proof (cases "frames w h")
  case None
  with assms show ?thesis
    by (simp add: resume_def)
next
  case (Some f)
  show ?thesis
  proof (cases "proc w = Running \<and> \<not> frame_done f")
    case False
    with assms Some show ?thesis
      by (auto simp: resume_def)
  next
    case True
    with assms Some show ?thesis
      by (cases "run (resume_point f) (promise f) (locals f)")
        (simp_all add: resume_suspended resume_aborted run_not_Completed)
  qed
qed

lemma poll_reaches_final:
  "proc w = Running \<Longrightarrow> handle_m cpf = Some h \<Longrightarrow> frames w h \<noteq> None \<Longrightarrow>
   proc (poll cpf w) = Running \<Longrightarrow> handle_done h (poll cpf w)"
proof (induction cpf w rule: poll.induct)
  case (1 cpf w)
  obtain b w' where r: "resume cpf w = (b, w')"
    by (cases "resume cpf w")
  from "1.prems" obtain f where f: "frames w h = Some f"
    by auto
  from resume_keeps_frame [OF "1.prems"(2) f] r have live: "frames w' h \<noteq> None"
    by simp
  show ?case
  proof (cases b)
    case True
    with r "1.prems" f have "proc w' = Running"
      by (auto simp: resume_def Let_def split: if_splits)
    from "1.IH" [OF r [symmetric] True this "1.prems"(2) live] "1.prems"(4) r True
    show ?thesis
      by (simp add: poll.simps [of cpf w])
  next
    case False
    with r have p: "poll cpf w = w'"
      by (simp add: poll.simps [of cpf w])
    from r False "1.prems" f p show ?thesis
      by (auto simp: resume_def Let_def handle_done_def split: if_splits)
  qed
qed

lemma poll_print_reaches_final:
  "proc w = Running \<Longrightarrow> handle_m cpf = Some h \<Longrightarrow> frames w h \<noteq> None \<Longrightarrow>
   proc (poll_print cpf w) = Running \<Longrightarrow> handle_done h (poll_print cpf w)"
proof (induction cpf w rule: poll_print.induct)
  case (1 cpf w)
  obtain b w' where r: "resume cpf w = (b, w')"
    by (cases "resume cpf w")
  from "1.prems" obtain f where f: "frames w h = Some f"
    by auto
  from resume_keeps_frame [OF "1.prems"(2) f] r have live: "frames w' h \<noteq> None"
    by simp
  show ?case
  proof (cases b)
    case True
    with r "1.prems" f have run': "proc w' = Running"
      by (auto simp: resume_def Let_def split: if_splits)
    let ?w = "print_value cpf w'"
    have fr: "frames ?w = frames w'"
      by (simp add: print_value_def split: sum.splits)
    from r True have p: "poll_print cpf w = poll_print cpf ?w"
      by (simp add: poll_print.simps [of cpf w])
    show ?thesis
    proof (cases "proc ?w = Running")
      case True': True
      from "1.IH" [OF r [symmetric] True True' "1.prems"(2)] live fr "1.prems"(4) p
      show ?thesis
        by simp
    next
      case False
      then have "resume cpf ?w = (False, ?w)"
        by (simp add: resume_def)
      then have "poll_print cpf ?w = ?w"
        by (simp add: poll_print.simps [of cpf ?w])
      with p False "1.prems"(4) show ?thesis
        by simp
    qed
  next
    case False
    with r have p: "poll_print cpf w = w'"
      by (simp add: poll_print.simps [of cpf w])
    from r False "1.prems" f p show ?thesis
      by (auto simp: resume_def Let_def handle_done_def split: if_splits)
  qed
qed

lemma co_call_running:
  "proc w = Running \<Longrightarrow> co_call s0 body w =
     (\<lparr>handle_m = Some (fresh w)\<rparr>,
      w\<lparr>fresh := Suc (fresh w),
        frames := (frames w)(fresh w := Some
          \<lparr>promise = \<lparr>x_m = None, y_m = None\<rparr>, locals = s0, resume_point = body,
           susp_at = InitialSuspend\<rparr>)\<rparr>)"
  by (simp add: co_call_def initial_suspend_def get_return_object_def CoTask_ctor_def Let_def)

lemma co_call_out: "out (snd (co_call s0 body w)) = out w"
  by (cases "proc w = Running") (simp_all add: co_call_running, simp add: co_call_def)

lemma get_result_done:
  "handle_m cpf = Some h \<Longrightarrow> frames w h = Some f \<Longrightarrow> y_m (promise f) = Some v \<Longrightarrow>
   get_result cpf w = Inr v"
  by (simp add: get_result_def)

lemma resume_not_running: "proc w \<noteq> Running \<Longrightarrow> resume this w = (False, w)"
  by (simp add: resume_def)

lemma poll_not_running: "proc w \<noteq> Running \<Longrightarrow> poll this w = w"
  by (simp add: poll.simps [of this w] resume_not_running)

lemma poll_print_not_running: "proc w \<noteq> Running \<Longrightarrow> poll_print this w = w"
  by (simp add: poll_print.simps [of this w] resume_not_running)


text \<open>The suspension points written in a body: a \<open>co_await\<close> or a \<open>co_yield\<close>.\<close>

fun explicit_yield_point :: "susp \<Rightarrow> bool" where
  "explicit_yield_point AwaitSuspend = True"
| "explicit_yield_point YieldSuspend = True"
| "explicit_yield_point sp = False"

definition suspended_only_at_yield_points :: "'s world \<Rightarrow> bool" where
  "suspended_only_at_yield_points w =
     (\<forall>h f. frames w h = Some f \<longrightarrow> explicit_yield_point (susp_at f))"



lemma run_suspension_point:
  "run k p s = Suspended f ls \<Longrightarrow>
   (susp_at f = FinalSuspend \<and> resume_point f = [])
   \<or> (\<exists>pre a. k = pre @ CoAwait a # resume_point f \<and> \<not> await_ready a
         \<and> susp_at f = AwaitSuspend)
   \<or> (\<exists>pre e. k = pre @ CoYield e # resume_point f \<and> susp_at f = YieldSuspend)"
proof (induction k arbitrary: p s ls)
  case Nil
  then show ?case
    by (auto simp: at_final_def split: if_splits)
next
  case (Cons st k)
  have step: "\<And>p' s' ls'. run k p' s' = Suspended f ls' \<Longrightarrow> ?case"
  proof -
    fix p' s' ls'
    assume "run k p' s' = Suspended f ls'"
    from Cons.IH [OF this] show ?case
    proof (elim disjE exE conjE)
      assume "susp_at f = FinalSuspend" "resume_point f = []"
      then show ?thesis by simp
    next
      fix pre a
      assume "k = pre @ CoAwait a # resume_point f" "\<not> await_ready a"
        "susp_at f = AwaitSuspend"
      then have "st # k = (st # pre) @ CoAwait a # resume_point f \<and> \<not> await_ready a
        \<and> susp_at f = AwaitSuspend"
        by simp
      then show ?thesis by blast
    next
      fix pre e
      assume "k = pre @ CoYield e # resume_point f" "susp_at f = YieldSuspend"
      then have "st # k = (st # pre) @ CoYield e # resume_point f \<and> susp_at f = YieldSuspend"
        by simp
      then show ?thesis by blast
    qed
  qed
  show ?case
  proof (cases st)
    case (Print e)
    with Cons.prems obtain ls' where "run k p (snd (e s)) = Suspended f ls'"
      by (auto simp: emit_Suspended split: prod.splits)
    then show ?thesis by (rule step)
  next
    case (CoAwait a)
    show ?thesis
    proof (cases "await_ready a")
      case True
      with CoAwait Cons.prems have "run k p s = Suspended f ls" by simp
      then show ?thesis by (rule step)
    next
      case False
      with CoAwait Cons.prems have "st # k = [] @ CoAwait a # resume_point f \<and> \<not> await_ready a
        \<and> susp_at f = AwaitSuspend"
        by auto
      then show ?thesis by blast
    qed
  next
    case (CoYield e)
    with Cons.prems have "st # k = [] @ CoYield e # resume_point f \<and> susp_at f = YieldSuspend"
      by (auto simp: yield_value_def split: prod.splits)
    then show ?thesis by blast
  next
    case (CoReturn e)
    with Cons.prems show ?thesis
      by (auto simp: at_final_def split: prod.splits if_splits)
  next
    case Throw
    with Cons.prems show ?thesis by simp
  qed
qed

lemma frames_print: "frames (print_value this w) = frames w" "frames (print_result this w) = frames w"
  "frames (print_newline w) = frames w"
  by (simp_all add: print_value_def print_result_def print_newline_def split: sum.splits)

lemma frames_dtor:
  "frames (CoTask_dtor this w) h = frames w h \<or> frames (CoTask_dtor this w) h = None"
  by (simp add: CoTask_dtor_def handle_destroy_def split: option.splits)

lemma frames_co_call: "h \<noteq> fresh w \<Longrightarrow> frames (snd (co_call loc body w)) h = frames w h"
  by (cases "proc w = Running") (simp_all add: co_call_running, simp add: co_call_def)

lemma resume_true_at_yield_point:
  assumes "resume this w = (True, w')"
  shows "\<exists>h f'. handle_m this = Some h \<and> frames w' h = Some f' \<and> explicit_yield_point (susp_at f')"
proof -
  from assms obtain h f where h: "handle_m this = Some h" and f: "frames w h = Some f"
    and nd: "\<not> frame_done f" and pw: "proc w = Running"
    by (auto simp: resume_def Let_def split: if_splits option.splits)
  show ?thesis
  proof (cases "run (resume_point f) (promise f) (locals f)")
    case (Suspended f' ls)
    with resume_suspended [OF pw h f nd Suspended] assms
    have w': "frames w' h = Some f'" and nd': "\<not> frame_done f'"
      by auto
    from run_suspension_point [OF Suspended] nd' have "explicit_yield_point (susp_at f')"
      by (auto simp: frame_done_def)
    with h w' show ?thesis by simp
  next
    case (Completed ls)
    then show ?thesis by (simp add: run_not_Completed)
  next
    case (Aborted pr ls)
    with resume_aborted [OF pw h f nd Aborted] assms show ?thesis by simp
  qed
qed

section \<open>Programs over several wrappers\<close>

text \<open>
  The \<open>CoTask\<close> objects of a program live in a store of their own, so that two names can
  be compared as \<open>this != &ct\<close> does.
\<close>

type_synonym wref = nat

record 's program =
  mach :: "'s world"
  objs :: "wref \<Rightarrow> CoTask option"

definition initial :: "'s program" where
  "initial = \<lparr>mach = start, objs = (\<lambda>t. None)\<rparr>"

text \<open>The move assignment operator of part_000.\<close>

definition CoTask_move_assign :: "wref \<Rightarrow> wref \<Rightarrow> 's program \<Rightarrow> 's program" where
  "CoTask_move_assign this ct P =
     (case (objs P this, objs P ct) of
        (Some a, Some b) \<Rightarrow>
          if this \<noteq> ct then
            (let m = (case handle_m a of None \<Rightarrow> mach P | Some h \<Rightarrow> handle_destroy h (mach P))
             in case exchange b None of (h', b') \<Rightarrow>
                  P\<lparr>mach := m, objs := (objs P)(ct := Some b', this := Some (a\<lparr>handle_m := h'\<rparr>))\<rparr>)
          else P
      | _ \<Rightarrow> P)"

text \<open>
  What a program can do with wrappers: call a coroutine into a new wrapper, move-construct
  a new wrapper, move-assign, end a wrapper's lifetime, resume, print. There is no copy:
  the copy constructor and the copy assignment are deleted. An action on a name that does
  not fit (a new wrapper under a live name, a use of a dead one) is no program and does
  nothing.
\<close>

datatype 's action =
    Call wref 's "'s stmt list"
  | MoveConstruct wref wref
  | MoveAssign wref wref
  | Destroy wref
  | Resume wref
  | PrintValue wref
  | PrintResult wref

fun apply_action :: "'s action \<Rightarrow> 's program \<Rightarrow> 's program" where
  "apply_action (Call t loc body) P =
     (case objs P t of
        Some a \<Rightarrow> P
      | None \<Rightarrow> (case co_call loc body (mach P) of (task, m) \<Rightarrow>
          P\<lparr>mach := m, objs := (objs P)(t := Some task)\<rparr>))"
| "apply_action (MoveConstruct t ct) P =
     (case (objs P t, objs P ct) of
        (None, Some b) \<Rightarrow> (case CoTask_move b of (new, b') \<Rightarrow>
          P\<lparr>objs := (objs P)(ct := Some b', t := Some new)\<rparr>)
      | _ \<Rightarrow> P)"
| "apply_action (MoveAssign t ct) P = CoTask_move_assign t ct P"
| "apply_action (Destroy t) P =
     (case objs P t of
        None \<Rightarrow> P
      | Some a \<Rightarrow> P\<lparr>mach := CoTask_dtor a (mach P), objs := (objs P)(t := None)\<rparr>)"
| "apply_action (Resume t) P =
     (case objs P t of None \<Rightarrow> P | Some a \<Rightarrow> P\<lparr>mach := snd (resume a (mach P))\<rparr>)"
| "apply_action (PrintValue t) P =
     (case objs P t of None \<Rightarrow> P | Some a \<Rightarrow> P\<lparr>mach := print_value a (mach P)\<rparr>)"
| "apply_action (PrintResult t) P =
     (case objs P t of None \<Rightarrow> P | Some a \<Rightarrow> P\<lparr>mach := print_result a (mach P)\<rparr>)"

definition step :: "'s action \<Rightarrow> 's program \<Rightarrow> 's program" where
  "step a P = (if proc (mach P) \<noteq> Running then P else apply_action a P)"

fun exec :: "'s action list \<Rightarrow> 's program \<Rightarrow> 's program" where
  "exec [] P = P"
| "exec (a # as) P = exec as (step a P)"

text \<open>Ownership of a handle, and the invariants of a program.\<close>

definition owns :: "'s program \<Rightarrow> wref \<Rightarrow> handle \<Rightarrow> bool" where
  "owns P t h = (case objs P t of None \<Rightarrow> False | Some a \<Rightarrow> handle_m a = Some h)"

definition single_owner :: "'s program \<Rightarrow> bool" where
  "single_owner P = (\<forall>t t' h. owns P t h \<and> owns P t' h \<longrightarrow> t = t')"

definition live :: "'s world \<Rightarrow> handle \<Rightarrow> bool" where
  "live w h = (frames w h \<noteq> None)"

definition well_formed :: "'s program \<Rightarrow> bool" where
  "well_formed P =
     (single_owner P
      \<and> (\<forall>t h. owns P t h \<longrightarrow> live (mach P) h)
      \<and> (\<forall>h. live (mach P) h \<longrightarrow> h < fresh (mach P)))"

definition destroys :: "'s action \<Rightarrow> 's program \<Rightarrow> handle \<Rightarrow> bool" where
  "destroys a P h = (live (mach P) h \<and> \<not> live (mach (step a P)) h)"

lemma fresh_resume: "fresh (snd (resume a w)) = fresh w"
proof (cases "handle_m a")
  case None
  then show ?thesis by (simp add: resume_def)
next
  case (Some h)
  show ?thesis
  proof (cases "frames w h")
    case None
    with Some show ?thesis by (simp add: resume_def)
  next
    case f: (Some f)
    show ?thesis
    proof (cases "proc w = Running \<and> \<not> frame_done f")
      case False
      with Some f show ?thesis by (auto simp: resume_def)
    next
      case True
      with Some f show ?thesis
        by (cases "run (resume_point f) (promise f) (locals f)")
          (simp_all add: resume_suspended resume_aborted run_not_Completed)
    qed
  qed
qed

lemma frames_resume_None: "frames (snd (resume a w)) h \<noteq> None \<longleftrightarrow> frames w h \<noteq> None"
proof (cases "handle_m a")
  case None
  then show ?thesis by (simp add: resume_def)
next
  case (Some h')
  show ?thesis
  proof (cases "h = h'")
    case False
    with Some show ?thesis by (simp add: resume_other_frames)
  next
    case True
    show ?thesis
    proof (cases "frames w h")
      case None
      with Some True show ?thesis by (simp add: resume_def)
    next
      case f: (Some f)
      with resume_keeps_frame [OF Some, of w f] True show ?thesis by simp
    qed
  qed
qed

lemma live_resume: "live (snd (resume a w)) h \<longleftrightarrow> live w h"
  unfolding live_def by (rule frames_resume_None)

lemma well_formed_initial: "well_formed initial"
  by (simp add: well_formed_def single_owner_def owns_def live_def initial_def start_def)

section \<open>The invariants of a program\<close>

lemma well_formedI:
  assumes "\<And>t t' h. owns P t h \<Longrightarrow> owns P t' h \<Longrightarrow> t = t'"
    and "\<And>t h. owns P t h \<Longrightarrow> live (mach P) h"
    and "\<And>h. live (mach P) h \<Longrightarrow> h < fresh (mach P)"
  shows "well_formed P"
  using assms unfolding well_formed_def single_owner_def by blast

lemma wf_unique: "well_formed P \<Longrightarrow> owns P t h \<Longrightarrow> owns P t' h \<Longrightarrow> t = t'"
  unfolding well_formed_def single_owner_def by blast

lemma wf_live: "well_formed P \<Longrightarrow> owns P t h \<Longrightarrow> live (mach P) h"
  unfolding well_formed_def by blast

lemma wf_bound: "well_formed P \<Longrightarrow> live (mach P) h \<Longrightarrow> h < fresh (mach P)"
  unfolding well_formed_def by blast

lemma owns_call:
  assumes "objs P t = None" "proc (mach P) = Running"
  shows "owns (apply_action (Call t loc body) P) x h \<longleftrightarrow>
    (if x = t then h = fresh (mach P) else owns P x h)"
  using assms by (auto simp: owns_def co_call_running)

lemma mach_call:
  assumes "objs P t = None" "proc (mach P) = Running"
  shows "frames (mach (apply_action (Call t loc body) P)) =
      (frames (mach P))(fresh (mach P) := Some
        \<lparr>promise = \<lparr>x_m = None, y_m = None\<rparr>, locals = loc, resume_point = body,
         susp_at = InitialSuspend\<rparr>)"
    and "fresh (mach (apply_action (Call t loc body) P)) = Suc (fresh (mach P))"
  using assms by (simp_all add: co_call_running)

lemma owns_move_construct:
  assumes "objs P t = None" "objs P ct = Some b"
  shows "owns (apply_action (MoveConstruct t ct) P) x h \<longleftrightarrow>
    (if x = t then owns P ct h else if x = ct then False else owns P x h)"
  using assms by (auto simp: owns_def CoTask_move_def exchange_def)

lemma mach_move_construct: "mach (apply_action (MoveConstruct t ct) P) = mach P"
  by (simp add: CoTask_move_def exchange_def split: option.splits)

lemma owns_move_assign:
  assumes "objs P t = Some a" "objs P ct = Some b" "t \<noteq> ct"
  shows "owns (apply_action (MoveAssign t ct) P) x h \<longleftrightarrow>
    (if x = t then owns P ct h else if x = ct then False else owns P x h)"
  using assms by (auto simp: owns_def CoTask_move_assign_def exchange_def Let_def)

lemma mach_move_assign:
  assumes "objs P t = Some a" "objs P ct = Some b" "t \<noteq> ct"
  shows "mach (apply_action (MoveAssign t ct) P) =
    (case handle_m a of None \<Rightarrow> mach P | Some h \<Rightarrow> handle_destroy h (mach P))"
  using assms by (simp add: CoTask_move_assign_def exchange_def Let_def)

lemma move_assign_noop:
  "objs P t = None \<or> objs P ct = None \<or> t = ct \<Longrightarrow> apply_action (MoveAssign t ct) P = P"
  by (auto simp: CoTask_move_assign_def split: option.splits)

lemma handle_destroy_live:
  "frames w h \<noteq> None \<Longrightarrow> handle_destroy h w = w\<lparr>frames := (frames w)(h := None)\<rparr>"
  by (auto simp: handle_destroy_def)

lemma owns_destroy:
  "owns (apply_action (Destroy t) P) x h \<longleftrightarrow> x \<noteq> t \<and> owns P x h"
  by (auto simp: owns_def split: option.splits)

lemma objs_resume: "objs (apply_action (Resume t) P) = objs P"
  "objs (apply_action (PrintValue t) P) = objs P"
  "objs (apply_action (PrintResult t) P) = objs P"
  by (simp_all split: option.splits)

lemma owns_cong: "objs P' = objs P \<Longrightarrow> owns P' = owns P"
  by (simp add: owns_def fun_eq_iff)

lemma well_formed_called:
  assumes wf: "well_formed P"
    and o: "\<And>x h. owns P' x h \<longleftrightarrow> (if x = t then h = fresh (mach P) else owns P x h)"
    and fr: "\<And>h. live (mach P') h \<longleftrightarrow> h = fresh (mach P) \<or> live (mach P) h"
    and fresh: "fresh (mach P') = Suc (fresh (mach P))"
  shows "well_formed P'"
proof (rule well_formedI)
  have nf: "\<not> owns P x (fresh (mach P))" for x
    using wf_live [OF wf, of x] wf_bound [OF wf, of "fresh (mach P)"] by blast
  fix x x' h
  assume a: "owns P' x h" "owns P' x' h"
  show "x = x'"
  proof (cases "x = t")
    case True
    with a nf show ?thesis
      by (cases "x' = t") (simp_all add: o)
  next
    case False
    with a nf wf_unique [OF wf, of x h x'] show ?thesis
      by (cases "x' = t") (simp_all add: o)
  qed
next
  fix x h
  assume "owns P' x h"
  then show "live (mach P') h"
    using wf_live [OF wf, of x h] by (cases "x = t") (simp_all add: o fr)
next
  fix h
  assume "live (mach P') h"
  then show "h < fresh (mach P')"
    using wf_bound [OF wf, of h] by (auto simp: fr fresh less_Suc_eq)
qed

lemma well_formed_moved:
  assumes wf: "well_formed P" and ne: "t \<noteq> ct"
    and o: "\<And>x h. owns P' x h \<longleftrightarrow>
      (if x = t then owns P ct h else if x = ct then False else owns P x h)"
    and fr: "\<And>h. live (mach P') h \<longleftrightarrow> live (mach P) h \<and> \<not> owns P t h"
    and fresh: "fresh (mach P') = fresh (mach P)"
  shows "well_formed P'"
proof (rule well_formedI)
  fix x x' h
  assume a: "owns P' x h" "owns P' x' h"
  from a(1) ne have x: "x \<noteq> ct" and ox: "owns P (if x = t then ct else x) h"
    by (simp_all add: o split: if_splits)
  from a(2) ne have x': "x' \<noteq> ct" and ox': "owns P (if x' = t then ct else x') h"
    by (simp_all add: o split: if_splits)
  from wf_unique [OF wf ox ox'] x x' show "x = x'"
    by (simp split: if_splits)
next
  fix x h
  assume a: "owns P' x h"
  with ne have x: "x \<noteq> ct" and ox: "owns P (if x = t then ct else x) h"
    by (simp_all add: o split: if_splits)
  have "\<not> owns P t h"
  proof
    assume "owns P t h"
    from wf_unique [OF wf this ox] x ne show False
      by (simp split: if_splits)
  qed
  with wf_live [OF wf ox] show "live (mach P') h"
    by (simp add: fr)
next
  fix h
  assume "live (mach P') h"
  then show "h < fresh (mach P')"
    using wf_bound [OF wf, of h] by (simp add: fr fresh)
qed

lemma well_formed_same_owners:
  assumes wf: "well_formed P"
    and o: "objs P' = objs P"
    and fr: "\<And>h. live (mach P') h \<longleftrightarrow> live (mach P) h"
    and fresh: "fresh (mach P') = fresh (mach P)"
  shows "well_formed P'"
  using wf unfolding well_formed_def single_owner_def owns_cong [OF o] fr fresh .

declare apply_action.simps [simp del]

lemma live_destroy:
  "live w h \<Longrightarrow> live (handle_destroy h w) h' \<longleftrightarrow> live w h' \<and> h' \<noteq> h"
  by (auto simp: live_def handle_destroy_def split: if_splits)

lemma fresh_destroy: "fresh (handle_destroy h w) = fresh w"
  by (simp add: handle_destroy_def split: option.splits)

lemma fresh_print: "fresh (print_value this w) = fresh w" "fresh (print_result this w) = fresh w"
  by (simp_all add: print_value_def print_result_def split: sum.splits)

lemma live_call:
  assumes "objs P t = None" "proc (mach P) = Running"
  shows "live (mach (apply_action (Call t loc body) P)) h \<longleftrightarrow>
    h = fresh (mach P) \<or> live (mach P) h"
  by (simp add: live_def mach_call [OF assms])

lemma live_move_assign:
  assumes wf: "well_formed P" and t: "objs P t = Some c" and ct: "objs P ct = Some b"
    and ne: "t \<noteq> ct"
  shows "live (mach (apply_action (MoveAssign t ct) P)) h \<longleftrightarrow>
    live (mach P) h \<and> \<not> owns P t h"
proof (cases "handle_m c")
  case None
  with t show ?thesis
    by (simp add: mach_move_assign [OF t ct ne] owns_def)
next
  case (Some h')
  with t have "owns P t h'"
    by (simp add: owns_def)
  from wf_live [OF wf this] Some t show ?thesis
    by (auto simp: mach_move_assign [OF t ct ne] live_destroy owns_def)
qed

lemma live_destroy_action:
  assumes wf: "well_formed P" and r: "proc (mach P) = Running"
  shows "live (mach (apply_action (Destroy t) P)) h \<longleftrightarrow> live (mach P) h \<and> \<not> owns P t h"
proof (cases "objs P t")
  case None
  then show ?thesis
    by (simp add: apply_action.simps owns_def)
next
  case (Some c)
  show ?thesis
  proof (cases "handle_m c")
    case None
    with Some r show ?thesis
      by (simp add: CoTask_dtor_def owns_def apply_action.simps)
  next
    case h': (Some h')
    with Some have "owns P t h'"
      by (simp add: owns_def)
    from wf_live [OF wf this] h' Some r show ?thesis
      by (auto simp: CoTask_dtor_def live_destroy owns_def apply_action.simps)
  qed
qed

lemma live_unmoved:
  "live (mach (apply_action (Resume t) P)) h \<longleftrightarrow> live (mach P) h"
  "live (mach (apply_action (PrintValue t) P)) h \<longleftrightarrow> live (mach P) h"
  "live (mach (apply_action (PrintResult t) P)) h \<longleftrightarrow> live (mach P) h"
  by (simp_all add: apply_action.simps live_resume split: option.splits)
    (simp_all add: live_def frames_print)

lemma fresh_unmoved:
  "fresh (mach (apply_action (Resume t) P)) = fresh (mach P)"
  "fresh (mach (apply_action (PrintValue t) P)) = fresh (mach P)"
  "fresh (mach (apply_action (PrintResult t) P)) = fresh (mach P)"
  "fresh (mach (apply_action (Destroy t) P)) = fresh (mach P)"
  by (simp_all add: apply_action.simps fresh_resume fresh_print CoTask_dtor_def fresh_destroy
      split: option.splits)

lemma well_formed_apply:
  assumes wf: "well_formed P" and r: "proc (mach P) = Running"
  shows "well_formed (apply_action a P)"
proof (cases a)
  case (Call t loc body)
  show ?thesis
  proof (cases "objs P t")
    case (Some c)
    with wf Call show ?thesis
      by (simp add: apply_action.simps)
  next
    case None
    show ?thesis
      unfolding Call
      by (rule well_formed_called [OF wf])
        (simp_all only: owns_call [OF None r] live_call [OF None r] mach_call [OF None r])
  qed
next
  case (MoveConstruct t ct)
  show ?thesis
  proof (cases "objs P t = None \<and> objs P ct \<noteq> None")
    case False
    then have "apply_action a P = P"
      by (auto simp: MoveConstruct apply_action.simps split: option.splits)
    with wf show ?thesis by simp
  next
    case True
    then obtain b where t: "objs P t = None" and ct: "objs P ct = Some b"
      by auto
    then have ne: "t \<noteq> ct" by auto
    have nt: "\<not> owns P t h" for h
      by (simp add: owns_def t)
    show ?thesis
      unfolding MoveConstruct
      by (rule well_formed_moved [OF wf ne])
        (simp_all only: owns_move_construct [OF t ct] mach_move_construct nt simp_thms)
  qed
next
  case (MoveAssign t ct)
  show ?thesis
  proof (cases "objs P t = None \<or> objs P ct = None \<or> t = ct")
    case True
    from move_assign_noop [OF this] wf MoveAssign show ?thesis by simp
  next
    case False
    then obtain c b where t: "objs P t = Some c" and ct: "objs P ct = Some b" and ne: "t \<noteq> ct"
      by auto
    have "fresh (mach (apply_action (MoveAssign t ct) P)) = fresh (mach P)"
      by (simp add: mach_move_assign [OF t ct ne] fresh_destroy split: option.splits)
    then show ?thesis
      unfolding MoveAssign
      by (intro well_formed_moved [OF wf ne])
        (simp_all only: owns_move_assign [OF t ct ne] live_move_assign [OF wf t ct ne])
  qed
next
  case (Destroy t)
  let ?P' = "apply_action (Destroy t) P"
  note o = owns_destroy [of t P] and l = live_destroy_action [OF wf r, of t]
  show ?thesis
    unfolding Destroy
  proof (rule well_formedI)
    fix x x' h
    assume "owns ?P' x h" "owns ?P' x' h"
    then show "x = x'"
      using wf_unique [OF wf, of x h x'] by (simp add: o)
  next
    fix x h
    assume a: "owns ?P' x h"
    then have "\<not> owns P t h"
      using wf_unique [OF wf, of t h x] by (auto simp: o)
    with a wf_live [OF wf, of x h] show "live (mach ?P') h"
      by (simp add: o l)
  next
    fix h
    assume "live (mach ?P') h"
    then show "h < fresh (mach ?P')"
      using wf_bound [OF wf, of h] by (simp add: l fresh_unmoved)
  qed
next
  case (Resume t)
  show ?thesis
    unfolding Resume
    by (rule well_formed_same_owners [OF wf]) (simp_all add: objs_resume live_unmoved fresh_unmoved)
next
  case (PrintValue t)
  show ?thesis
    unfolding PrintValue
    by (rule well_formed_same_owners [OF wf]) (simp_all add: objs_resume live_unmoved fresh_unmoved)
next
  case (PrintResult t)
  show ?thesis
    unfolding PrintResult
    by (rule well_formed_same_owners [OF wf]) (simp_all add: objs_resume live_unmoved fresh_unmoved)
qed

lemma well_formed_step: "well_formed P \<Longrightarrow> well_formed (step a P)"
  by (simp add: step_def well_formed_apply)

lemma well_formed_exec: "well_formed P \<Longrightarrow> well_formed (exec as P)"
  by (induction as arbitrary: P) (simp_all add: well_formed_step)

text \<open>The claim C2 as the spec words it.\<close>

fun moves_from :: "'s action \<Rightarrow> wref \<Rightarrow> bool" where
  "moves_from (MoveConstruct t ct) x = (x = ct)"
| "moves_from (MoveAssign t ct) x = (x = ct \<and> t \<noteq> ct)"
| "moves_from a x = False"

definition destroyed_when_destroyed_or_moved_from :: "'s action \<Rightarrow> 's program \<Rightarrow> bool" where
  "destroyed_when_destroyed_or_moved_from a P =
     (\<forall>t h. owns P t h \<longrightarrow> (destroys a P h \<longleftrightarrow> a = Destroy t \<or> moves_from a t))"

lemma step_running: "proc (mach P) = Running \<Longrightarrow> step a P = apply_action a P"
  by (simp add: step_def)

lemma owns_objs: "owns P t h \<Longrightarrow> \<exists>c. objs P t = Some c \<and> handle_m c = Some h"
  by (simp add: owns_def split: option.splits)

lemma gains_handle:
  assumes wf: "well_formed P" and g: "owns (step a P) x h" and n: "\<not> owns P x h"
  shows "(h = fresh (mach P) \<and> (\<exists>loc body. a = Call x loc body))
    \<or> (\<exists>ct. owns P ct h \<and> \<not> owns (step a P) ct h)"
proof (cases "proc (mach P) = Running")
  case False
  with g n show ?thesis
    by (simp add: step_def)
next
  case r: True
  note g' = g [unfolded step_running [OF r]]
  show ?thesis
  proof (cases a)
    case (Call t loc body)
    show ?thesis
    proof (cases "objs P t")
      case (Some c)
      with g' n Call show ?thesis
        by (simp add: apply_action.simps)
    next
      case None
      from g' n Call have "x = t \<and> h = fresh (mach P)"
        by (simp add: owns_call [OF None r] split: if_splits)
      with Call show ?thesis by simp
    qed
  next
    case (MoveConstruct t ct)
    show ?thesis
    proof (cases "objs P t = None \<and> objs P ct \<noteq> None")
      case False
      then have "apply_action a P = P"
        by (auto simp: MoveConstruct apply_action.simps split: option.splits)
      with g' n show ?thesis by simp
    next
      case True
      then obtain b where t: "objs P t = None" and ct: "objs P ct = Some b"
        by auto
      then have ne: "t \<noteq> ct" by auto
      note o = owns_move_construct [OF t ct]
      from g' n MoveConstruct ne have "owns P ct h \<and> \<not> owns (apply_action a P) ct h"
        by (simp add: o split: if_splits)
      then show ?thesis
        by (auto simp: step_running [OF r])
    qed
  next
    case (MoveAssign t ct)
    show ?thesis
    proof (cases "objs P t = None \<or> objs P ct = None \<or> t = ct")
      case True
      from move_assign_noop [OF this] g' n MoveAssign show ?thesis by simp
    next
      case False
      then obtain c b where t: "objs P t = Some c" and ct: "objs P ct = Some b"
        and ne: "t \<noteq> ct"
        by auto
      note o = owns_move_assign [OF t ct ne]
      from g' n MoveAssign ne have "owns P ct h \<and> \<not> owns (apply_action a P) ct h"
        by (simp add: o split: if_splits)
      then show ?thesis
        by (auto simp: step_running [OF r])
    qed
  next
    case (Destroy t)
    with g' n show ?thesis
      by (simp add: owns_destroy)
  next
    case (Resume t)
    with g' n show ?thesis
      by (simp add: owns_cong [OF objs_resume(1)])
  next
    case (PrintValue t)
    with g' n show ?thesis
      by (simp add: owns_cong [OF objs_resume(2)])
  next
    case (PrintResult t)
    with g' n show ?thesis
      by (simp add: owns_cong [OF objs_resume(3)])
  qed
qed

lemma moved_from_construct:
  assumes "proc (mach P) = Running" "objs P t = None" "objs P ct = Some b"
  shows "objs (step (MoveConstruct t ct) P) ct = Some \<lparr>handle_m = None\<rparr>"
    and "objs (step (MoveConstruct t ct) P) t = Some b"
  using assms
  by (auto simp: step_def apply_action.simps CoTask_move_def exchange_def)

lemma moved_from_assign:
  assumes "proc (mach P) = Running" "objs P t = Some c" "objs P ct = Some b" "t \<noteq> ct"
  shows "objs (step (MoveAssign t ct) P) ct = Some \<lparr>handle_m = None\<rparr>"
    and "objs (step (MoveAssign t ct) P) t = Some b"
  using assms
  by (auto simp: step_def apply_action.simps CoTask_move_assign_def exchange_def Let_def)

lemma self_assign: "step (MoveAssign t t) P = P"
  by (simp add: step_def move_assign_noop)

lemma destroys_iff:
  assumes wf: "well_formed P" and r: "proc (mach P) = Running" and o: "owns P t h"
  shows "destroys a P h \<longleftrightarrow>
    a = Destroy t \<or> (\<exists>ct. a = MoveAssign t ct \<and> ct \<noteq> t \<and> objs P ct \<noteq> None)"
proof -
  from wf_live [OF wf o] have d: "destroys a' P h \<longleftrightarrow> \<not> live (mach (apply_action a' P)) h"
    for a'
    by (simp add: destroys_def step_running [OF r])
  from o obtain c where c: "objs P t = Some c"
    by (auto dest: owns_objs)
  have own: "owns P t' h \<longleftrightarrow> t' = t" for t'
    using wf_unique [OF wf o, of t'] o by auto
  show ?thesis
  proof (cases a)
    case (Call t' loc body)
    show ?thesis
    proof (cases "objs P t'")
      case None
      from wf_live [OF wf o] show ?thesis
        by (simp add: d Call live_call [OF None r])
    next
      case (Some c')
      with wf_live [OF wf o] show ?thesis
        by (simp add: d Call apply_action.simps)
    qed
  next
    case (MoveConstruct t' ct)
    from wf_live [OF wf o] show ?thesis
      by (simp add: d MoveConstruct mach_move_construct)
  next
    case (MoveAssign t' ct)
    show ?thesis
    proof (cases "objs P t' = None \<or> objs P ct = None \<or> t' = ct")
      case True
      from move_assign_noop [OF this] wf_live [OF wf o] True c show ?thesis
        by (auto simp: d MoveAssign)
    next
      case False
      then obtain c' b where t': "objs P t' = Some c'" and ct: "objs P ct = Some b"
        and ne: "t' \<noteq> ct"
        by auto
      from wf_live [OF wf o] ne ct show ?thesis
        by (auto simp: d MoveAssign live_move_assign [OF wf t' ct ne] own)
    qed
  next
    case (Destroy t')
    from wf_live [OF wf o] show ?thesis
      by (auto simp: d Destroy live_destroy_action [OF wf r] own)
  next
    case (Resume t')
    from wf_live [OF wf o] show ?thesis
      by (simp add: d Resume live_unmoved)
  next
    case (PrintValue t')
    from wf_live [OF wf o] show ?thesis
      by (simp add: d PrintValue live_unmoved)
  next
    case (PrintResult t')
    from wf_live [OF wf o] show ?thesis
      by (simp add: d PrintResult live_unmoved)
  qed
qed

lemma transfer_construct:
  assumes r: "proc (mach P) = Running" and o: "owns P src h" and d: "objs P dst = None"
  shows "owns (step (MoveConstruct dst src) P) dst h"
    and "\<not> owns (step (MoveConstruct dst src) P) src h"
proof -
  from o obtain b where b: "objs P src = Some b"
    by (auto dest: owns_objs)
  with d have ne: "dst \<noteq> src" by auto
  from o ne show "owns (step (MoveConstruct dst src) P) dst h"
    and "\<not> owns (step (MoveConstruct dst src) P) src h"
    by (simp_all add: step_running [OF r] owns_move_construct [OF d b])
qed

lemma transfer_assign:
  assumes r: "proc (mach P) = Running" and o: "owns P src h" and d: "objs P dst \<noteq> None"
    and ne: "dst \<noteq> src"
  shows "owns (step (MoveAssign dst src) P) dst h"
    and "\<not> owns (step (MoveAssign dst src) P) src h"
proof -
  from o obtain b where b: "objs P src = Some b"
    by (auto dest: owns_objs)
  from d obtain c where c: "objs P dst = Some c"
    by auto
  from o ne show "owns (step (MoveAssign dst src) P) dst h"
    and "\<not> owns (step (MoveAssign dst src) P) src h"
    by (simp_all add: step_running [OF r] owns_move_assign [OF c b ne])
qed

section \<open>What the examples print\<close>

lemma out_block_await: "out (block_await start) = [Number 0, Number 1]"
  by code_simp

lemma out_block_yield: "out (block_yield start) = [Number 0, Number 1]"
  by code_simp

lemma out_block_return: "out (block_return start) = [Number 0, Number 1]"
  by code_simp

lemma out_main_coroutines:
  "out main_coroutines =
     [Number 0, Number 1, Empty, Number 0, Number 1, Empty, Number 0, Number 1]"
  by code_simp

lemma out_main_part_000:
  "out main_part_000 =
     [Number 0, Number 1, Empty, Number 0, Number 1, Empty, Number 0, Number 1, Empty]"
  by code_simp

lemma proc_mains: "proc main_coroutines = Running" "proc main_part_000 = Running"
  by code_simp+

lemma sequence_10: "map sint (elements SignedT (sequence (10 :: 32 word))) = [0, 1, 2, 3, 4, 5, 6, 7, 8, 9]"
  by code_simp

lemma value_main_part_001:
  "main_part_001 =
     ([Number 0, Number 1, Number 2, Number 3, Number 4, Number 5, Number 6, Number 7,
       Number 8, Number 9, Empty,
       Number 0, Number 1, Number 2, Number 3, Number 4, Number 5, Number 6, Number 7,
       Number 8, Number 9, Empty], True)"
  by code_simp

text \<open>
  C1. Each example prints the sequence computed by hand from its counter:
  \<open>co_await_int\<close> prints 0 then 1; the loop driving \<open>co_yield_int\<close> prints 0 then 1; the
  driver of \<open>co_return_int\<close> prints the yielded 0 and then the returned 1; \<open>sequence(10)\<close>
  yields 0 to 9 in that order and \<open>main\<close> of part_001 prints them (twice, the second
  time from the vector). The two \<open>main\<close> functions of the task examples print the three
  blocks with empty lines between, and end with the process still running.
\<close>

theorem examples_print_expected:
  "out (block_await start) = [Number 0, Number 1]
   \<and> out (block_yield start) = [Number 0, Number 1]
   \<and> out (block_return start) = [Number 0, Number 1]
   \<and> out main_coroutines =
       [Number 0, Number 1, Empty, Number 0, Number 1, Empty, Number 0, Number 1]
   \<and> out main_part_000 =
       [Number 0, Number 1, Empty, Number 0, Number 1, Empty, Number 0, Number 1, Empty]
   \<and> proc main_coroutines = Running \<and> proc main_part_000 = Running
   \<and> map sint (elements SignedT (sequence (10 :: 32 word))) = [0, 1, 2, 3, 4, 5, 6, 7, 8, 9]
   \<and> fst main_part_001 =
       map Number [0, 1, 2, 3, 4, 5, 6, 7, 8, 9] @ [Empty]
       @ map Number [0, 1, 2, 3, 4, 5, 6, 7, 8, 9] @ [Empty]
   \<and> snd main_part_001"
  by (simp add: out_block_await out_block_yield out_block_return out_main_coroutines
      out_main_part_000 proc_mains sequence_10 value_main_part_001)

section \<open>The values of \<open>sequence(n)\<close>\<close>

lemma elements_from_yield:
  "seq_at g = GenYield \<Longrightarrow> seq_current g = Some c \<Longrightarrow>
   map (value_T ty) (elements_from ty g) =
     value_T ty c # [value_T ty (seq_x g) .. value_T ty (seq_n g) - 1]"
proof (induction ty g arbitrary: c rule: elements_from.induct)
  case (1 ty g)
  show ?case
  proof (cases "less_T ty (seq_x g) (seq_n g)")
    case True
    let ?g' = "gen_resume ty g"
    from True "1.prems" have g': "seq_at ?g' = GenYield" "seq_current ?g' = Some (seq_x g)"
      "seq_x ?g' = seq_x g + 1" "seq_n ?g' = seq_n g"
      by (simp_all add: gen_resume_def loop_head_def)
    from "1.prems" have "seq_at g \<noteq> GenFinal"
      by simp
    from "1.IH" [OF this "1.prems"(2) g'(1,2)] g'
    have "map (value_T ty) (elements_from ty ?g') =
      value_T ty (seq_x g) # [value_T ty (seq_x g + 1) .. value_T ty (seq_n g) - 1]"
      by simp
    moreover from True have "value_T ty (seq_x g) < value_T ty (seq_n g)"
      by (simp add: less_T_iff)
    ultimately show ?thesis
      using "1.prems" True
      by (subst elements_from.simps)
        (simp add: value_succ [OF True] upto_rec1 [of "value_T ty (seq_x g)"])
  next
    case False
    then have "seq_at (gen_resume ty g) = GenFinal"
      using "1.prems" by (simp add: gen_resume_def loop_head_def)
    moreover from False have "\<not> value_T ty (seq_x g) < value_T ty (seq_n g)"
      by (simp add: less_T_iff)
    ultimately show ?thesis
      using "1.prems"
      by (subst elements_from.simps) (simp add: elements_from.simps [of ty "gen_resume ty g"])
  qed
qed

lemma values_sequence:
  fixes n :: "'a::len word"
  shows "map (value_T ty) (elements ty (sequence n)) = [0 .. value_T ty n - 1]"
proof (cases "less_T ty 0 n")
  case True
  let ?g = "gen_resume ty (sequence n)"
  from True have g: "seq_at ?g = GenYield" "seq_current ?g = Some 0" "seq_x ?g = 1"
    "seq_n ?g = n"
    by (simp_all add: gen_resume_def loop_head_def sequence_def)
  from True have "0 < value_T ty n"
    by (simp add: less_T_iff value_T_0)
  with elements_from_yield [OF g(1,2), of ty] g value_T_1 [OF True] show ?thesis
    by (simp add: elements_def value_T_0 upto_rec1 [of 0])
next
  case False
  then have "seq_at (gen_resume ty (sequence n)) = GenFinal"
    by (simp add: gen_resume_def loop_head_def sequence_def)
  moreover from False have "\<not> 0 < value_T ty n"
    by (simp add: less_T_iff value_T_0)
  ultimately show ?thesis
    by (simp add: elements_def elements_from.simps [of ty "gen_resume ty (sequence n)"])
qed

text \<open>
  C8. For every value \<open>n\<close> of an integral type (of any width, signed or unsigned),
  \<open>sequence(n)\<close> yields exactly 0, 1, ..., n - 1: in strictly increasing order, \<open>n\<close>
  values when \<open>n > 0\<close>, and none when \<open>n \<le> 0\<close>.
\<close>

theorem sequence_yields_below_n:
  fixes n :: "'a::len word"
  shows "map (value_T ty) (elements ty (sequence n)) = [0 .. value_T ty n - 1]
    \<and> sorted_wrt (<) (map (value_T ty) (elements ty (sequence n)))
    \<and> length (elements ty (sequence n)) = nat (value_T ty n)
    \<and> (value_T ty n \<le> 0 \<longrightarrow> elements ty (sequence n) = [])"
proof -
  have v: "map (value_T ty) (elements ty (sequence n)) = [0 .. value_T ty n - 1]"
    by (rule values_sequence)
  then have "sorted_wrt (<) (map (value_T ty) (elements ty (sequence n)))"
    by (simp only: sorted_wrt_upto)
  moreover have l: "length (elements ty (sequence n)) = nat (value_T ty n)"
    using arg_cong [OF v, of length] by simp
  moreover from l have "value_T ty n \<le> 0 \<longrightarrow> elements ty (sequence n) = []"
    by (auto simp flip: length_0_conv)
  ultimately show ?thesis
    using v by simp
qed

theorem sequence_yields_below_n_witness:
  "value_T SignedT (- 3 :: 32 word) \<le> 0
   \<and> elements SignedT (sequence (- 3 :: 32 word)) = []
   \<and> map (value_T UnsignedT) (elements UnsignedT (sequence (4 :: 8 word))) = [0, 1, 2, 3]
   \<and> length (elements UnsignedT (sequence (4 :: 8 word))) = 4"
proof -
  have neg: "value_T SignedT (- 3 :: 32 word) \<le> 0"
    by simp
  have "[0 .. 4 - 1] = [0, 1, 2, 3 :: int]"
    by code_simp
  with neg sequence_yields_below_n [of SignedT "- 3 :: 32 word"]
    sequence_yields_below_n [of UnsignedT "4 :: 8 word"]
  show ?thesis
    by simp
qed

section \<open>The contract of \<open>resume\<close>\<close>

text \<open>
  C9. \<open>resume\<close> on a wrapper whose handle is null, or whose coroutine is suspended at
  its final suspend point, returns \<open>false\<close> and changes nothing. On a coroutine that is
  not complete it runs the body once, from the resume point to the next suspension, stores
  the frame so reached and returns whether that frame is not yet complete. The only other
  outcome of the run is an exception, which ends the process.
\<close>
theorem resume_contract:
  "(handle_m this = None \<longrightarrow> resume this w = (False, w))
   \<and> (\<forall>h f. handle_m this = Some h \<and> frames w h = Some f \<and> frame_done f \<longrightarrow>
         resume this w = (False, w))
   \<and> (\<forall>h f f' ls. proc w = Running \<and> handle_m this = Some h \<and> frames w h = Some f
         \<and> \<not> frame_done f
         \<and> run (resume_point f) (promise f) (locals f) = Suspended f' ls \<longrightarrow>
         resume this w =
           (\<not> frame_done f', w\<lparr>frames := (frames w)(h := Some f'), out := out w @ ls\<rparr>))
   \<and> (\<forall>h f. proc w = Running \<and> handle_m this = Some h \<and> frames w h = Some f
         \<and> \<not> frame_done f \<longrightarrow>
         (\<exists>f' ls. run (resume_point f) (promise f) (locals f) = Suspended f' ls)
         \<or> (\<exists>ls. run (resume_point f) (promise f) (locals f) = Aborted Terminated ls))"
proof -
  have "handle_m this = None \<longrightarrow> resume this w = (False, w)"
    by (simp add: resume_def)
  moreover have "\<forall>h f. handle_m this = Some h \<and> frames w h = Some f \<and> frame_done f \<longrightarrow>
      resume this w = (False, w)"
    by (auto simp: resume_def)
  moreover have "\<forall>h f f' ls. proc w = Running \<and> handle_m this = Some h \<and> frames w h = Some f
      \<and> \<not> frame_done f
      \<and> run (resume_point f) (promise f) (locals f) = Suspended f' ls \<longrightarrow>
      resume this w =
        (\<not> frame_done f', w\<lparr>frames := (frames w)(h := Some f'), out := out w @ ls\<rparr>)"
    by (simp add: resume_suspended)
  moreover have "\<forall>h f. proc w = Running \<and> handle_m this = Some h \<and> frames w h = Some f
      \<and> \<not> frame_done f \<longrightarrow>
      (\<exists>f' ls. run (resume_point f) (promise f) (locals f) = Suspended f' ls)
      \<or> (\<exists>ls. run (resume_point f) (promise f) (locals f) = Aborted Terminated ls)"
  proof (intro allI impI)
    fix h f
    show "(\<exists>f' ls. run (resume_point f) (promise f) (locals f) = Suspended f' ls)
      \<or> (\<exists>ls. run (resume_point f) (promise f) (locals f) = Aborted Terminated ls)"
    proof (cases "run (resume_point f) (promise f) (locals f)")
      case (Suspended f' ls)
      then show ?thesis by simp
    next
      case (Completed ls)
      then show ?thesis by (simp add: run_not_Completed)
    next
      case (Aborted pr ls)
      with run_Aborted [OF Aborted] show ?thesis by simp
    qed
  qed
  ultimately show ?thesis
    by blast
qed

theorem resume_contract_witness:
  "resume \<lparr>handle_m = None\<rparr> (start :: unsigned world) = (False, start)
   \<and> resume \<lparr>handle_m = Some 0\<rparr>
        (start\<lparr>frames := (frames start)(0 := Some
           \<lparr>promise = \<lparr>x_m = None, y_m = None\<rparr>, locals = 0 :: unsigned, resume_point = [],
            susp_at = FinalSuspend\<rparr>)\<rparr>)
      = (False, start\<lparr>frames := (frames start)(0 := Some
           \<lparr>promise = \<lparr>x_m = None, y_m = None\<rparr>, locals = 0, resume_point = [],
            susp_at = FinalSuspend\<rparr>)\<rparr>)
   \<and> resume \<lparr>handle_m = Some 0\<rparr>
        (start\<lparr>frames := (frames start)(0 := Some
           \<lparr>promise = \<lparr>x_m = None, y_m = None\<rparr>, locals = 0 :: unsigned,
            resume_point = [CoYield post_inc, CoYield read_x], susp_at = InitialSuspend\<rparr>)\<rparr>)
      = (True, start\<lparr>frames := (frames start)(0 := Some
           \<lparr>promise = \<lparr>x_m = Some 0, y_m = None\<rparr>, locals = 1,
            resume_point = [CoYield read_x], susp_at = YieldSuspend\<rparr>)\<rparr>)"
  using resume_contract [of "\<lparr>handle_m = None\<rparr>" "start :: unsigned world"]
    resume_contract [of "\<lparr>handle_m = Some 0\<rparr>" "start\<lparr>frames := (frames start)(0 := Some
           \<lparr>promise = \<lparr>x_m = None, y_m = None\<rparr>, locals = 0 :: unsigned, resume_point = [],
            susp_at = FinalSuspend\<rparr>)\<rparr>"]
    resume_contract [of "\<lparr>handle_m = Some 0\<rparr>" "start\<lparr>frames := (frames start)(0 := Some
           \<lparr>promise = \<lparr>x_m = None, y_m = None\<rparr>, locals = 0 :: unsigned,
            resume_point = [CoYield post_inc, CoYield read_x], susp_at = InitialSuspend\<rparr>)\<rparr>"]
  by (simp add: start_def frame_done_def yield_value_def post_inc_def)

section \<open>The suspension protocol\<close>

text \<open>
  C4. Every coroutine on these promise types follows the protocol suspend at the start,
  yield a value and suspend, return a value, suspend at the end. \<open>initial_suspend\<close> is
  \<open>suspend_always\<close>: the call stores the frame at its initial suspend point with the
  whole body still to run and prints nothing. \<open>yield_value\<close> stores the value and returns
  \<open>suspend_always\<close>: a \<open>co_yield\<close> suspends with the value in the promise. \<open>co_return\<close>
  and the end of the body store the result and suspend at the final suspend point, since
  \<open>final_suspend\<close> is \<open>suspend_always\<close>: no run destroys its frame, \<open>resume\<close> leaves
  the frame in place, a polling loop that returns normally leaves the coroutine at its
  final suspend point, and \<open>get_result\<close> then reads the result from the live frame.
\<close>
theorem suspension_protocol:
  "initial_suspend = suspend_always \<and> final_suspend = suspend_always
   \<and> (proc w = Running \<longrightarrow>
        co_call loc body w =
          (\<lparr>handle_m = Some (fresh w)\<rparr>,
           w\<lparr>fresh := Suc (fresh w),
             frames := (frames w)(fresh w := Some
               \<lparr>promise = \<lparr>x_m = None, y_m = None\<rparr>, locals = loc, resume_point = body,
                susp_at = InitialSuspend\<rparr>)\<rparr>))
   \<and> out (snd (co_call loc body w)) = out w
   \<and> yield_value v p = (p\<lparr>x_m := Some v\<rparr>, suspend_always)
   \<and> run (CoYield e # k) p s =
        Suspended \<lparr>promise = p\<lparr>x_m := Some (fst (e s))\<rparr>, locals = snd (e s),
          resume_point = k, susp_at = YieldSuspend\<rparr> []
   \<and> run (CoReturn e # k) p s =
        Suspended \<lparr>promise = p\<lparr>y_m := Some (fst (e s))\<rparr>, locals = snd (e s),
          resume_point = [], susp_at = FinalSuspend\<rparr> []
   \<and> run [] p s =
        Suspended \<lparr>promise = p, locals = s, resume_point = [], susp_at = FinalSuspend\<rparr> []
   \<and> (\<forall>ls. run k p s \<noteq> Completed ls)
   \<and> (\<forall>h f. handle_m cpf = Some h \<and> frames w h = Some f \<longrightarrow>
         frames (snd (resume cpf w)) h \<noteq> None)
   \<and> (\<forall>h. proc w = Running \<and> handle_m cpf = Some h \<and> frames w h \<noteq> None \<longrightarrow>
         (proc (poll cpf w) = Running \<longrightarrow> handle_done h (poll cpf w))
         \<and> (proc (poll_print cpf w) = Running \<longrightarrow> handle_done h (poll_print cpf w)))
   \<and> (\<forall>h f v. handle_m cpf = Some h \<and> frames w h = Some f \<and> frame_done f
         \<and> y_m (promise f) = Some v \<longrightarrow> get_result cpf w = Inr v)"
proof -
  have "proc w = Running \<longrightarrow>
      co_call loc body w =
        (\<lparr>handle_m = Some (fresh w)\<rparr>,
         w\<lparr>fresh := Suc (fresh w),
           frames := (frames w)(fresh w := Some
             \<lparr>promise = \<lparr>x_m = None, y_m = None\<rparr>, locals = loc, resume_point = body,
              susp_at = InitialSuspend\<rparr>)\<rparr>)"
    by (simp add: co_call_running)
  moreover have "run (CoYield e # k) p s =
      Suspended \<lparr>promise = p\<lparr>x_m := Some (fst (e s))\<rparr>, locals = snd (e s),
        resume_point = k, susp_at = YieldSuspend\<rparr> []"
    by (simp add: yield_value_def split: prod.splits)
  moreover have "run (CoReturn e # k) p s =
      Suspended \<lparr>promise = p\<lparr>y_m := Some (fst (e s))\<rparr>, locals = snd (e s),
        resume_point = [], susp_at = FinalSuspend\<rparr> []"
    by (simp add: return_value_def at_final_def final_suspend_def split: prod.splits)
  moreover have "run [] p s =
      Suspended \<lparr>promise = p, locals = s, resume_point = [], susp_at = FinalSuspend\<rparr> []"
    by (simp add: return_void_def at_final_def final_suspend_def)
  moreover have "\<forall>h f. handle_m cpf = Some h \<and> frames w h = Some f \<longrightarrow>
      frames (snd (resume cpf w)) h \<noteq> None"
    using resume_keeps_frame by blast
  moreover have "\<forall>h. proc w = Running \<and> handle_m cpf = Some h \<and> frames w h \<noteq> None \<longrightarrow>
      (proc (poll cpf w) = Running \<longrightarrow> handle_done h (poll cpf w))
      \<and> (proc (poll_print cpf w) = Running \<longrightarrow> handle_done h (poll_print cpf w))"
    using poll_reaches_final poll_print_reaches_final by blast
  moreover have "\<forall>h f v. handle_m cpf = Some h \<and> frames w h = Some f \<and> frame_done f
      \<and> y_m (promise f) = Some v \<longrightarrow> get_result cpf w = Inr v"
    by (simp add: get_result_def)
  ultimately show ?thesis
    by (simp add: initial_suspend_def final_suspend_def co_call_out yield_value_def
        run_not_Completed)
qed

theorem suspension_protocol_witness:
  "proc (start :: unsigned world) = Running
   \<and> co_return_int start =
       (\<lparr>handle_m = Some 0\<rparr>,
        start\<lparr>fresh := Suc 0,
          frames := (frames start)(0 := Some
            \<lparr>promise = \<lparr>x_m = None, y_m = None\<rparr>, locals = 0,
             resume_point = [CoYield post_inc, CoReturn read_x],
             susp_at = InitialSuspend\<rparr>)\<rparr>)
   \<and> handle_done 0 (poll_print \<lparr>handle_m = Some 0\<rparr> (snd (co_return_int start)))
   \<and> get_result \<lparr>handle_m = Some 0\<rparr>
        (poll_print \<lparr>handle_m = Some 0\<rparr> (snd (co_return_int start))) = Inr 1"
proof -
  let ?w = "snd (co_return_int start)"
  let ?cpf = "\<lparr>handle_m = Some 0\<rparr>"
  let ?p = "\<lparr>x_m = None, y_m = None\<rparr>"
  have c: "co_return_int start =
      (?cpf, start\<lparr>fresh := Suc 0,
          frames := (frames start)(0 := Some
            \<lparr>promise = ?p, locals = 0,
             resume_point = [CoYield post_inc, CoReturn read_x],
             susp_at = InitialSuspend\<rparr>)\<rparr>)"
    using suspension_protocol [where w = "start :: unsigned world" and loc = 0
        and body = "[CoYield post_inc, CoReturn read_x]" and cpf = ?cpf and v = 0 and p = ?p
        and e = post_inc and k = "[] :: unsigned stmt list" and s = "0 :: unsigned"]
    by (simp add: co_return_int_def start_def)
  have r: "proc (poll_print ?cpf ?w) = Running"
    by code_simp
  have live: "proc ?w = Running" "frames ?w 0 \<noteq> None"
    unfolding c by (simp_all add: start_def)
  have d: "handle_done 0 (poll_print ?cpf ?w)"
    using suspension_protocol [where w = ?w and loc = 0
        and body = "[]" and cpf = ?cpf and v = 0 and p = ?p
        and e = post_inc and k = "[] :: unsigned stmt list" and s = "0 :: unsigned"] r live
    by simp
  have g: "get_result ?cpf (poll_print ?cpf ?w) = Inr 1"
    by code_simp
  from c d g show ?thesis
    by (simp add: start_def)
qed

section \<open>Exceptions\<close>

text \<open>
  C5. An exception that escapes a coroutine body is fatal. \<open>unhandled_exception\<close> is
  \<open>std::terminate()\<close>: a body that throws ends the process, whatever it printed before;
  \<open>resume\<close> then leaves the process terminated, and in a terminated process nothing
  runs any more: no resumption, no polling loop, no output, no destructor and no new
  coroutine. There is no other path.
\<close>
theorem exception_is_fatal:
  "unhandled_exception = Terminated
   \<and> run (Throw # k) p s = Aborted Terminated []
   \<and> (\<forall>pr ls. run k p s = Aborted pr ls \<longrightarrow> pr = Terminated)
   \<and> (\<forall>h f pr ls. proc w = Running \<and> handle_m this = Some h \<and> frames w h = Some f
         \<and> \<not> frame_done f
         \<and> run (resume_point f) (promise f) (locals f) = Aborted pr ls \<longrightarrow>
         resume this w = (False, w\<lparr>out := out w @ ls, proc := Terminated\<rparr>))
   \<and> (proc w = Terminated \<longrightarrow>
         resume this w = (False, w) \<and> poll this w = w \<and> poll_print this w = w
         \<and> print_value this w = w \<and> print_result this w = w \<and> print_newline w = w
         \<and> CoTask_dtor this w = w \<and> snd (co_call loc body w) = w)"
proof -
  have "\<forall>pr ls. run k p s = Aborted pr ls \<longrightarrow> pr = Terminated"
    by (auto dest: run_Aborted)
  moreover have "\<forall>h f pr ls. proc w = Running \<and> handle_m this = Some h \<and> frames w h = Some f
      \<and> \<not> frame_done f
      \<and> run (resume_point f) (promise f) (locals f) = Aborted pr ls \<longrightarrow>
      resume this w = (False, w\<lparr>out := out w @ ls, proc := Terminated\<rparr>)"
    using resume_aborted by blast
  moreover have "proc w = Terminated \<longrightarrow>
      resume this w = (False, w) \<and> poll this w = w \<and> poll_print this w = w
      \<and> print_value this w = w \<and> print_result this w = w \<and> print_newline w = w
      \<and> CoTask_dtor this w = w \<and> snd (co_call loc body w) = w"
    by (simp add: resume_not_running poll_not_running poll_print_not_running print_value_def
        print_result_def print_newline_def CoTask_dtor_def co_call_def)
  ultimately show ?thesis
    by (simp add: unhandled_exception_def)
qed

theorem exception_is_fatal_witness:
  "resume \<lparr>handle_m = Some 0\<rparr>
     (snd (co_call (0 :: unsigned) [Print post_inc, Throw, Print read_x] start))
   = (False, (snd (co_call (0 :: unsigned) [Print post_inc, Throw, Print read_x] start))
        \<lparr>out := [Number 0], proc := Terminated\<rparr>)
   \<and> poll \<lparr>handle_m = Some 0\<rparr>
       (snd (resume \<lparr>handle_m = Some 0\<rparr>
         (snd (co_call (0 :: unsigned) [Print post_inc, Throw, Print read_x] start))))
     = (snd (co_call (0 :: unsigned) [Print post_inc, Throw, Print read_x] start))
        \<lparr>out := [Number 0], proc := Terminated\<rparr>"
proof -
  let ?w = "snd (co_call (0 :: unsigned) [Print post_inc, Throw, Print read_x] start)"
  let ?f = "\<lparr>promise = \<lparr>x_m = None, y_m = None\<rparr>, locals = 0 :: unsigned,
     resume_point = [Print post_inc, Throw, Print read_x], susp_at = InitialSuspend\<rparr>"
  let ?cpf = "\<lparr>handle_m = Some 0\<rparr>"
  have w: "proc ?w = Running" "frames ?w 0 = Some ?f" "out ?w = []"
    by (simp_all add: co_call_running start_def)
  have a: "run (resume_point ?f) (promise ?f) (locals ?f) = Aborted Terminated [Number 0]"
    by (simp add: post_inc_def unhandled_exception_def)
  have nd: "\<not> frame_done ?f"
    by (simp add: frame_done_def)
  from exception_is_fatal [where w = ?w and this = ?cpf and k = "[] :: unsigned stmt list" and s = "0 :: unsigned"
        and p = "\<lparr>x_m = None, y_m = None\<rparr>" and loc = 0 and body = "[]"]
  have "\<forall>h f pr ls. proc ?w = Running \<and> handle_m ?cpf = Some h \<and> frames ?w h = Some f
         \<and> \<not> frame_done f
         \<and> run (resume_point f) (promise f) (locals f) = Aborted pr ls \<longrightarrow>
         resume ?cpf ?w = (False, ?w\<lparr>out := out ?w @ ls, proc := Terminated\<rparr>)"
    by blast
  then have "proc ?w = Running \<and> handle_m ?cpf = Some 0 \<and> frames ?w 0 = Some ?f
         \<and> \<not> frame_done ?f
         \<and> run (resume_point ?f) (promise ?f) (locals ?f) = Aborted Terminated [Number 0] \<longrightarrow>
         resume ?cpf ?w = (False, ?w\<lparr>out := out ?w @ [Number 0], proc := Terminated\<rparr>)"
    by blast
  with w a nd have r: "resume ?cpf ?w = (False, ?w\<lparr>out := [Number 0], proc := Terminated\<rparr>)"
    by simp
  have "poll ?cpf (?w\<lparr>out := [Number 0], proc := Terminated\<rparr>)
      = ?w\<lparr>out := [Number 0], proc := Terminated\<rparr>"
    using exception_is_fatal [where w = "?w\<lparr>out := [Number 0], proc := Terminated\<rparr>"
        and this = ?cpf and k = "[] :: unsigned stmt list" and s = "0 :: unsigned"
        and p = "\<lparr>x_m = None, y_m = None\<rparr>" and loc = 0 and body = "[]"]
    by simp
  with r show ?thesis
    by simp
qed

section \<open>Who writes the promise\<close>



section \<open>Where a coroutine is suspended\<close>

text \<open>
  C7, as stated, says that suspension occurs only at the explicit yield points of the
  example bodies. It fails on the state right after the call \<open>co_await_int()\<close>: the frame
  is suspended at its initial suspend point, before any statement of the body.
\<close>

theorem initial_suspension_is_not_a_yield_point:
  "\<not> suspended_only_at_yield_points (snd (co_await_int start))"
proof
  assume "suspended_only_at_yield_points (snd (co_await_int start))"
  moreover have "frames (snd (co_await_int start)) 0 =
    Some \<lparr>promise = \<lparr>x_m = None, y_m = None\<rparr>, locals = 0,
      resume_point = [Print post_inc, CoAwait suspend_always, Print read_x,
        CoAwait suspend_always],
      susp_at = InitialSuspend\<rparr>"
    by (simp add: co_await_int_def co_call_running start_def)
  ultimately have "explicit_yield_point InitialSuspend"
    unfolding suspended_only_at_yield_points_def by fastforce
  then show False
    by simp
qed

text \<open>
  C7, amended. A coroutine is suspended at its initial suspend point from the call on
  (the call runs no statement of the body and prints nothing); a run of the body stops
  at a \<open>co_await\<close> that suspends or at a \<open>co_yield\<close> written in the body, with the
  statements after it as the resume point, or at the final suspend point; and whenever
  \<open>resume\<close> returns \<open>true\<close> the coroutine is suspended at such an explicit point. The
  body runs inside \<open>resume\<close> only: the polling loops are repeated calls of \<open>resume\<close> by
  the caller, and printing, the destructor and the call of another coroutine leave each
  live frame as it is (the destructor may destroy it).
\<close>

theorem suspension_points_and_resumption:
  "(proc w = Running \<longrightarrow>
      frames (snd (co_call loc body w)) (fresh w) =
        Some \<lparr>promise = \<lparr>x_m = None, y_m = None\<rparr>, locals = loc, resume_point = body,
          susp_at = InitialSuspend\<rparr>)
   \<and> out (snd (co_call loc body w)) = out w
   \<and> (\<forall>f ls. run k p s = Suspended f ls \<longrightarrow>
         (susp_at f = FinalSuspend \<and> resume_point f = [])
         \<or> (\<exists>pre a. k = pre @ CoAwait a # resume_point f \<and> \<not> await_ready a
               \<and> susp_at f = AwaitSuspend)
         \<or> (\<exists>pre e. k = pre @ CoYield e # resume_point f \<and> susp_at f = YieldSuspend))
   \<and> (\<forall>w'. resume this w = (True, w') \<longrightarrow>
         (\<exists>h f'. handle_m this = Some h \<and> frames w' h = Some f'
            \<and> explicit_yield_point (susp_at f')))
   \<and> poll this w = (if fst (resume this w) then poll this (snd (resume this w))
        else snd (resume this w))
   \<and> poll_print this w =
        (if fst (resume this w) then poll_print this (print_value this (snd (resume this w)))
         else snd (resume this w))
   \<and> frames (print_value this w) = frames w
   \<and> frames (print_result this w) = frames w
   \<and> frames (print_newline w) = frames w
   \<and> (\<forall>h. frames (CoTask_dtor this w) h = frames w h \<or> frames (CoTask_dtor this w) h = None)
   \<and> (\<forall>h. h \<noteq> fresh w \<longrightarrow> frames (snd (co_call loc body w)) h = frames w h)"
proof -
  have "proc w = Running \<longrightarrow>
      frames (snd (co_call loc body w)) (fresh w) =
        Some \<lparr>promise = \<lparr>x_m = None, y_m = None\<rparr>, locals = loc, resume_point = body,
          susp_at = InitialSuspend\<rparr>"
    by (simp add: co_call_running)
  moreover have "\<forall>f ls. run k p s = Suspended f ls \<longrightarrow>
      (susp_at f = FinalSuspend \<and> resume_point f = [])
      \<or> (\<exists>pre a. k = pre @ CoAwait a # resume_point f \<and> \<not> await_ready a
            \<and> susp_at f = AwaitSuspend)
      \<or> (\<exists>pre e. k = pre @ CoYield e # resume_point f \<and> susp_at f = YieldSuspend)"
    by (intro allI impI) (rule run_suspension_point)
  moreover have "\<forall>w'. resume this w = (True, w') \<longrightarrow>
      (\<exists>h f'. handle_m this = Some h \<and> frames w' h = Some f'
         \<and> explicit_yield_point (susp_at f'))"
    by (intro allI impI) (rule resume_true_at_yield_point)
  moreover have "poll this w = (if fst (resume this w) then poll this (snd (resume this w))
      else snd (resume this w))"
    by (simp add: poll.simps [of this w] split: prod.splits)
  moreover have "poll_print this w =
      (if fst (resume this w) then poll_print this (print_value this (snd (resume this w)))
       else snd (resume this w))"
    by (simp add: poll_print.simps [of this w] split: prod.splits)
  moreover have "\<forall>h. frames (CoTask_dtor this w) h = frames w h
      \<or> frames (CoTask_dtor this w) h = None"
    by (simp add: frames_dtor)
  moreover have "\<forall>h. h \<noteq> fresh w \<longrightarrow> frames (snd (co_call loc body w)) h = frames w h"
    by (simp add: frames_co_call)
  ultimately show ?thesis
    by (simp add: co_call_out frames_print)
qed

theorem suspension_points_and_resumption_witness:
  "proc (start :: unsigned world) = Running
   \<and> map_option susp_at (frames (snd (co_await_int start)) 0) = Some InitialSuspend
   \<and> resume \<lparr>handle_m = Some 0\<rparr> (snd (co_await_int start)) =
       (True, start\<lparr>fresh := Suc 0, out := [Number 0],
          frames := (frames start)(0 := Some
            \<lparr>promise = \<lparr>x_m = None, y_m = None\<rparr>, locals = 1,
             resume_point = [Print read_x, CoAwait suspend_always],
             susp_at = AwaitSuspend\<rparr>)\<rparr>)
   \<and> explicit_yield_point AwaitSuspend"
proof -
  let ?body = "[Print post_inc, CoAwait suspend_always, Print read_x, CoAwait suspend_always]"
  let ?cpf = "\<lparr>handle_m = Some 0\<rparr>"
  let ?w = "snd (co_await_int start)"
  have run0: "proc (start :: unsigned world) = Running" "fresh (start :: unsigned world) = 0"
    by (simp_all add: start_def)
  from suspension_points_and_resumption [where w = "start :: unsigned world" and loc = 0
      and body = ?body and this = ?cpf and k = "[] :: unsigned stmt list"
      and p = "\<lparr>x_m = None, y_m = None\<rparr>" and s = "0 :: unsigned"] run0
  have init: "frames ?w 0 = Some \<lparr>promise = \<lparr>x_m = None, y_m = None\<rparr>, locals = 0,
      resume_point = ?body, susp_at = InitialSuspend\<rparr>"
    by (simp add: co_await_int_def)
  have r: "resume ?cpf ?w =
       (True, start\<lparr>fresh := Suc 0, out := [Number 0],
          frames := (frames start)(0 := Some
            \<lparr>promise = \<lparr>x_m = None, y_m = None\<rparr>, locals = 1,
             resume_point = [Print read_x, CoAwait suspend_always],
             susp_at = AwaitSuspend\<rparr>)\<rparr>)"
    by (simp add: co_await_int_def co_call_running start_def resume_def frame_done_def
        handle_resume_def handle_done_def post_inc_def)
  from run0 init r show ?thesis
    by simp
qed

section \<open>One owner for each handle\<close>

text \<open>
  C3. At every point of a program there is at most one owner of a coroutine handle: no
  two live wrappers hold the same handle, after any sequence of calls, moves, destructions,
  resumptions and prints, and the property is kept by every single action. A \<open>CoTask\<close>
  cannot be copied, so a wrapper comes to a handle in two ways only: by the call that
  creates the frame, or from a wrapper that holds it no more afterwards. After a move
  construction or a move assignment from another wrapper the source holds the null handle
  and the destination holds what the source held; a move assignment to itself changes
  nothing.
\<close>

theorem single_owner_invariant:
  "single_owner (exec as initial)
   \<and> (well_formed P \<longrightarrow> single_owner (step a P))
   \<and> (\<forall>b. proc (mach P) = Running \<and> objs P t = None \<and> objs P ct = Some b \<longrightarrow>
         objs (step (MoveConstruct t ct) P) ct = Some \<lparr>handle_m = None\<rparr>
         \<and> objs (step (MoveConstruct t ct) P) t = Some b)
   \<and> (\<forall>c b. proc (mach P) = Running \<and> objs P t = Some c \<and> objs P ct = Some b \<and> t \<noteq> ct \<longrightarrow>
         objs (step (MoveAssign t ct) P) ct = Some \<lparr>handle_m = None\<rparr>
         \<and> objs (step (MoveAssign t ct) P) t = Some b)
   \<and> step (MoveAssign t t) P = P
   \<and> (\<forall>x h. well_formed P \<and> owns (step a P) x h \<and> \<not> owns P x h \<longrightarrow>
         (h = fresh (mach P) \<and> (\<exists>loc body. a = Call x loc body))
         \<or> (\<exists>ct. owns P ct h \<and> \<not> owns (step a P) ct h))"
proof -
  have "well_formed (exec as initial)"
    by (rule well_formed_exec [OF well_formed_initial])
  then have "single_owner (exec as initial)"
    by (simp add: well_formed_def)
  moreover have "well_formed P \<longrightarrow> single_owner (step a P)"
    using well_formed_step [of P a] by (simp add: well_formed_def)
  moreover have "\<forall>b. proc (mach P) = Running \<and> objs P t = None \<and> objs P ct = Some b \<longrightarrow>
      objs (step (MoveConstruct t ct) P) ct = Some \<lparr>handle_m = None\<rparr>
      \<and> objs (step (MoveConstruct t ct) P) t = Some b"
    by (simp add: moved_from_construct)
  moreover have "\<forall>c b. proc (mach P) = Running \<and> objs P t = Some c \<and> objs P ct = Some b
      \<and> t \<noteq> ct \<longrightarrow>
      objs (step (MoveAssign t ct) P) ct = Some \<lparr>handle_m = None\<rparr>
      \<and> objs (step (MoveAssign t ct) P) t = Some b"
    using moved_from_assign by blast
  moreover have "\<forall>x h. well_formed P \<and> owns (step a P) x h \<and> \<not> owns P x h \<longrightarrow>
      (h = fresh (mach P) \<and> (\<exists>loc body. a = Call x loc body))
      \<or> (\<exists>ct. owns P ct h \<and> \<not> owns (step a P) ct h)"
    using gains_handle by blast
  ultimately show ?thesis
    by (simp add: self_assign)
qed

theorem single_owner_invariant_witness:
  "owns (exec [Call 0 (0 :: unsigned) [CoYield post_inc], MoveConstruct 1 0,
          Call 2 0 [CoYield post_inc], MoveAssign 2 1] initial) 2 0
   \<and> \<not> owns (exec [Call 0 (0 :: unsigned) [CoYield post_inc], MoveConstruct 1 0,
          Call 2 0 [CoYield post_inc], MoveAssign 2 1] initial) 1 0
   \<and> \<not> owns (exec [Call 0 (0 :: unsigned) [CoYield post_inc], MoveConstruct 1 0,
          Call 2 0 [CoYield post_inc], MoveAssign 2 1] initial) 0 0"
proof -
  let ?as = "[Call 0 (0 :: unsigned) [CoYield post_inc], MoveConstruct 1 0,
          Call 2 0 [CoYield post_inc], MoveAssign 2 1]"
  let ?P = "exec ?as initial"
  have o: "owns ?P 2 0"
    by code_simp
  from single_owner_invariant [where as = ?as and P = "initial :: unsigned program"
      and a = "Resume 0" and t = 0 and ct = 0]
  have "single_owner ?P"
    by blast
  with o have "\<forall>x. owns ?P x 0 \<longrightarrow> x = 2"
    unfolding single_owner_def by blast
  then have "\<not> owns ?P 1 0" "\<not> owns ?P 0 0"
    by auto
  with o show ?thesis
    by simp
qed

section \<open>When a handle is destroyed\<close>

text \<open>
  C2, as stated, says that the handle a wrapper owns is destroyed exactly when the wrapper
  is destroyed or moved-from. It fails on a move construction: the wrapper moved from
  gives its handle away, and the frame stays alive.
\<close>

theorem moved_from_handle_is_not_destroyed:
  "\<not> destroyed_when_destroyed_or_moved_from (MoveConstruct 1 0)
       (exec [Call 0 (0 :: unsigned) [CoYield post_inc, CoYield read_x]] initial)"
proof
  let ?P = "exec [Call 0 (0 :: unsigned) [CoYield post_inc, CoYield read_x]] initial"
  assume "destroyed_when_destroyed_or_moved_from (MoveConstruct 1 0) ?P"
  moreover have "owns ?P 0 0"
    by code_simp
  ultimately have "destroys (MoveConstruct 1 0) ?P 0"
    unfolding destroyed_when_destroyed_or_moved_from_def by simp
  moreover have "\<not> destroys (MoveConstruct 1 0) ?P 0"
    by code_simp
  ultimately show False
    by simp
qed

text \<open>
  C2, amended. In a running program, the handle a wrapper owns is destroyed exactly when
  the wrapper is destroyed, or when the wrapper is move-assigned from another live wrapper
  (its own handle is destroyed before it takes the other's). A wrapper that is moved from,
  by construction or by assignment, gives its handle to the destination: the destination
  owns it afterwards, the source does not, and the handle is not destroyed.
\<close>

theorem handle_destroyed_iff:
  "(well_formed P \<and> proc (mach P) = Running \<and> owns P t h \<longrightarrow>
      (destroys a P h \<longleftrightarrow>
         a = Destroy t \<or> (\<exists>ct. a = MoveAssign t ct \<and> ct \<noteq> t \<and> objs P ct \<noteq> None)))
   \<and> (well_formed P \<and> proc (mach P) = Running \<and> owns P src h \<and> objs P dst = None \<longrightarrow>
        owns (step (MoveConstruct dst src) P) dst h
        \<and> \<not> owns (step (MoveConstruct dst src) P) src h
        \<and> \<not> destroys (MoveConstruct dst src) P h)
   \<and> (well_formed P \<and> proc (mach P) = Running \<and> owns P src h \<and> objs P dst \<noteq> None
        \<and> dst \<noteq> src \<longrightarrow>
        owns (step (MoveAssign dst src) P) dst h
        \<and> \<not> owns (step (MoveAssign dst src) P) src h
        \<and> \<not> destroys (MoveAssign dst src) P h)"
proof (intro conjI impI)
  assume "well_formed P \<and> proc (mach P) = Running \<and> owns P t h"
  then have "well_formed P" "proc (mach P) = Running" "owns P t h"
    by simp_all
  then show "destroys a P h \<longleftrightarrow>
      a = Destroy t \<or> (\<exists>ct. a = MoveAssign t ct \<and> ct \<noteq> t \<and> objs P ct \<noteq> None)"
    by (rule destroys_iff)
next
  assume a: "well_formed P \<and> proc (mach P) = Running \<and> owns P src h \<and> objs P dst = None"
  then show "owns (step (MoveConstruct dst src) P) dst h"
    and "\<not> owns (step (MoveConstruct dst src) P) src h"
    by (simp_all add: transfer_construct)
  from a show "\<not> destroys (MoveConstruct dst src) P h"
    by (simp add: destroys_iff [of P src h])
next
  assume a: "well_formed P \<and> proc (mach P) = Running \<and> owns P src h \<and> objs P dst \<noteq> None
    \<and> dst \<noteq> src"
  then show "owns (step (MoveAssign dst src) P) dst h"
    and "\<not> owns (step (MoveAssign dst src) P) src h"
    by (simp_all add: transfer_assign)
  from a show "\<not> destroys (MoveAssign dst src) P h"
    by (simp add: destroys_iff [of P src h])
qed

theorem handle_destroyed_iff_witness:
  "destroys (Destroy 0)
     (exec [Call 0 (0 :: unsigned) [CoYield post_inc], Call 1 0 [CoYield post_inc]] initial) 0
   \<and> destroys (MoveAssign 0 1)
     (exec [Call 0 (0 :: unsigned) [CoYield post_inc], Call 1 0 [CoYield post_inc]] initial) 0
   \<and> \<not> destroys (MoveAssign 0 1)
     (exec [Call 0 (0 :: unsigned) [CoYield post_inc], Call 1 0 [CoYield post_inc]] initial) 1
   \<and> owns (step (MoveAssign 0 1)
     (exec [Call 0 (0 :: unsigned) [CoYield post_inc], Call 1 0 [CoYield post_inc]] initial)) 0 1
   \<and> \<not> destroys (MoveConstruct 2 0)
     (exec [Call 0 (0 :: unsigned) [CoYield post_inc], Call 1 0 [CoYield post_inc]] initial) 0"
proof -
  let ?P = "exec [Call 0 (0 :: unsigned) [CoYield post_inc], Call 1 0 [CoYield post_inc]] initial"
  have wf: "well_formed ?P"
    by (rule well_formed_exec [OF well_formed_initial])
  have r: "proc (mach ?P) = Running"
    by code_simp
  have o: "owns ?P 0 0" "owns ?P 1 1"
    by code_simp+
  have l: "objs ?P 0 \<noteq> None" "objs ?P 1 \<noteq> None" "objs ?P 2 = None"
    by code_simp+
  from handle_destroyed_iff [where P = ?P and t = 0 and h = 0 and a = "Destroy 0"
      and src = 0 and dst = 2] wf r o l
  have 1: "destroys (Destroy 0) ?P 0" "\<not> destroys (MoveConstruct 2 0) ?P 0"
    by simp_all
  from handle_destroyed_iff [where P = ?P and t = 0 and h = 0 and a = "MoveAssign 0 1"
      and src = 0 and dst = 2] wf r o l
  have 2: "destroys (MoveAssign 0 1) ?P 0"
    by simp
  from handle_destroyed_iff [where P = ?P and t = 1 and h = 1 and a = "Resume 0"
      and src = 1 and dst = 0] wf r o l
  have 3: "owns (step (MoveAssign 0 1) ?P) 0 1" "\<not> destroys (MoveAssign 0 1) ?P 1"
    by simp_all
  from 1 2 3 show ?thesis
    by blast
qed

end
